theory Spec2Isabelle
  imports Complex_Main "HOL-Library.Word"
begin

section \<open>Pixel buffers, errors and vector registers\<close>

text \<open>
  A pixel buffer is a \<open>std::vector<unsigned char>\<close>: a list of 8-bit words. Every
  transform of \<open>filters.hpp\<close> either returns a fresh buffer or throws; the throw is the
  left injection of a sum type. Besides the exception the source raises itself
  (\<open>std::invalid_argument\<close>) and the one a vector constructor raises for a size
  beyond \<open>max_size()\<close> (\<open>std::length_error\<close>), the model names the undefined
  behaviours the C++ code can reach: an index outside a vector, a signed \<open>int\<close>
  overflow and a conversion of a \<open>double\<close> that does not fit \<open>int\<close>. Evaluation
  stops at the first of them.
\<close>

type_synonym byte = "8 word"

datatype error = InvalidArgument | OutOfBounds | SignedOverflow | FloatCastOverflow | LengthError

text \<open>
  An \<open>__m128i\<close> register is a list of 16 bytes, lowest address first.
  \<open>_mm_set1_epi8\<close> broadcasts a byte, \<open>_mm_sub_epi8\<close> subtracts lane by lane modulo
  256, \<open>_mm_loadu_si128\<close> reads 16 bytes at an offset, \<open>_mm_loadl_epi64\<close> reads 8
  bytes into the low half and clears the high half, and the two stores write 16 bytes
  or the low 8 bytes back at an offset.
\<close>

type_synonym m128i = "byte list"

definition mm_set1_epi8 :: "byte \<Rightarrow> m128i" where
  "mm_set1_epi8 b = replicate 16 b"

definition mm_sub_epi8 :: "m128i \<Rightarrow> m128i \<Rightarrow> m128i" where
  "mm_sub_epi8 a b = map2 (-) a b"

definition mm_loadu_si128 :: "byte list \<Rightarrow> nat \<Rightarrow> m128i" where
  "mm_loadu_si128 mem off = take 16 (drop off mem)"

definition mm_loadl_epi64 :: "byte list \<Rightarrow> nat \<Rightarrow> m128i" where
  "mm_loadl_epi64 mem off = take 8 (drop off mem) @ replicate 8 0"

definition store_bytes :: "byte list \<Rightarrow> nat \<Rightarrow> byte list \<Rightarrow> byte list" where
  "store_bytes mem off vs = take off mem @ vs @ drop (off + length vs) mem"

definition mm_storeu_si128 :: "byte list \<Rightarrow> nat \<Rightarrow> m128i \<Rightarrow> byte list" where
  "mm_storeu_si128 mem off v = store_bytes mem off (take 16 v)"

definition mm_storel_epi64 :: "byte list \<Rightarrow> nat \<Rightarrow> m128i \<Rightarrow> byte list" where
  "mm_storel_epi64 mem off v = store_bytes mem off (take 8 v)"

section \<open>Greyscale\<close>

text \<open>
  The luminance expression \<open>(77 * r + 150 * g + 29 * b + 128) >> 8\<close> is evaluated in
  \<open>int\<close> after the integer promotion of the three \<open>unsigned char\<close> operands, and the
  \<open>static_cast<unsigned char>\<close> keeps the low 8 bits.
\<close>

definition luminance :: "byte \<Rightarrow> byte \<Rightarrow> byte \<Rightarrow> byte" where
  "luminance r g b =
     word_of_int (drop_bit 8 (77 * uint r + 150 * uint g + 29 * uint b + 128))"

text \<open>The pixel whose first sample sits at \<open>idx\<close>: \<open>src[idx]\<close>, \<open>src[idx + 1]\<close>, \<open>src[idx + 2]\<close>.\<close>

definition grey_at :: "byte list \<Rightarrow> nat \<Rightarrow> byte" where
  "grey_at src idx = luminance (src ! idx) (src ! (idx + 1)) (src ! (idx + 2))"

text \<open>
  The inner loop \<open>for (j = 0; j < 8; ++j)\<close> of the grouped path fills the local array
  \<open>greys\<close>. The array is declared without initialiser; all of its 8 cells are
  written before it is read, so the model starts it at zero.
\<close>

function greys_loop :: "byte list \<Rightarrow> nat \<Rightarrow> nat \<Rightarrow> byte list \<Rightarrow> byte list" where
  "greys_loop src i j greys =
     (if j < 8 then greys_loop src i (j + 1) (greys[j := grey_at src ((i + j) * 3)])
      else greys)"
  by pat_completeness auto
termination
  by (relation "measure (\<lambda>(src, i, j, greys). 8 - j)") auto

text \<open>The grouped loop \<open>for (; i + 8 <= pixels; i += 8)\<close>; it hands \<open>i\<close> on to the tail loop.\<close>

function grey_group_loop :: "byte list \<Rightarrow> nat \<Rightarrow> nat \<Rightarrow> byte list \<Rightarrow> nat \<times> byte list" where
  "grey_group_loop src pixels i dst =
     (if i + 8 \<le> pixels
      then grey_group_loop src pixels (i + 8)
             (mm_storel_epi64 dst i (mm_loadl_epi64 (greys_loop src i 0 (replicate 8 0)) 0))
      else (i, dst))"
  by pat_completeness auto
termination
  by (relation "measure (\<lambda>(src, pixels, i, dst). pixels - i)") auto

text \<open>The tail loop \<open>for (; i < pixels; ++i)\<close>.\<close>

function grey_tail_loop :: "byte list \<Rightarrow> nat \<Rightarrow> nat \<Rightarrow> byte list \<Rightarrow> byte list" where
  "grey_tail_loop src pixels i dst =
     (if i < pixels then grey_tail_loop src pixels (i + 1) (dst[i := grey_at src (i * 3)])
      else dst)"
  by pat_completeness auto
termination
  by (relation "measure (\<lambda>(src, pixels, i, dst). pixels - i)") auto

definition apply_greyscale_rgb_simd :: "byte list \<Rightarrow> error + byte list" where
  "apply_greyscale_rgb_simd bytes =
     (if length bytes mod 3 \<noteq> 0 then Inl InvalidArgument
      else
        let pixels = length bytes div 3;
            output = replicate pixels 0;
            (i, dst) = grey_group_loop bytes pixels 0 output
        in Inr (grey_tail_loop bytes pixels i dst))"

section \<open>Invert\<close>

text \<open>The vector loop \<open>for (; i + 16 <= total; i += 16)\<close> with the constant \<open>all_ones\<close>.\<close>

function invert_group_loop :: "byte list \<Rightarrow> nat \<Rightarrow> m128i \<Rightarrow> nat \<Rightarrow> byte list \<Rightarrow> nat \<times> byte list" where
  "invert_group_loop src tot all_ones i dst =
     (if i + 16 \<le> tot
      then invert_group_loop src tot all_ones (i + 16)
             (mm_storeu_si128 dst i (mm_sub_epi8 all_ones (mm_loadu_si128 src i)))
      else (i, dst))"
  by pat_completeness auto
termination
  by (relation "measure (\<lambda>(src, tot, all_ones, i, dst). tot - i)") auto

text \<open>
  The tail statement \<open>dst[i] = 255 - src[i]\<close> subtracts in \<open>int\<close> and converts the
  difference back to \<open>unsigned char\<close>.
\<close>

definition invert_byte :: "byte \<Rightarrow> byte" where
  "invert_byte b = word_of_int (255 - uint b)"

function invert_tail_loop :: "byte list \<Rightarrow> nat \<Rightarrow> nat \<Rightarrow> byte list \<Rightarrow> byte list" where
  "invert_tail_loop src tot i dst =
     (if i < tot then invert_tail_loop src tot (i + 1) (dst[i := invert_byte (src ! i)])
      else dst)"
  by pat_completeness auto
termination
  by (relation "measure (\<lambda>(src, tot, i, dst). tot - i)") auto

definition apply_invert_rgb_simd :: "byte list \<Rightarrow> error + byte list" where
  "apply_invert_rgb_simd bytes =
     (if length bytes mod 3 \<noteq> 0 then Inl InvalidArgument
      else
        let output = replicate (length bytes) 0;
            tot = length bytes;
            all_ones = mm_set1_epi8 255;
            (i, dst) = invert_group_loop bytes tot all_ones 0 output
        in Inr (invert_tail_loop bytes tot i dst))"

declare greys_loop.simps [simp del] grey_group_loop.simps [simp del]
  grey_tail_loop.simps [simp del] invert_group_loop.simps [simp del]
  invert_tail_loop.simps [simp del]


section \<open>Checked indexing, sequencing and counted loops\<close>

text \<open>
  The spatial filters index their vectors with \<open>int\<close> expressions built from the
  caller's width and height, which the source does not compare with the buffer length.
  Every such access goes through \<open>rd\<close> or \<open>wr\<close>: an index outside the vector is the
  error \<open>OutOfBounds\<close>. \<open>bnd\<close> runs the next statement on the value of the previous
  one and hands an error on.
\<close>

definition rd :: "'a list \<Rightarrow> int \<Rightarrow> error + 'a" where
  "rd xs i = (if 0 \<le> i \<and> i < int (length xs) then Inr (xs ! nat i) else Inl OutOfBounds)"

definition wr :: "'a list \<Rightarrow> int \<Rightarrow> 'a \<Rightarrow> error + 'a list" where
  "wr xs i v = (if 0 \<le> i \<and> i < int (length xs) then Inr (xs[nat i := v]) else Inl OutOfBounds)"

definition bnd :: "error + 'a \<Rightarrow> ('a \<Rightarrow> error + 'b) \<Rightarrow> error + 'b" where
  "bnd m f = (case m of Inl e \<Rightarrow> Inl e | Inr v \<Rightarrow> f v)"

text \<open>
  \<open>for (int i = lo; i < n; ++i) body\<close>, with the variables the body assigns as the
  state \<open>s\<close>. The loop stops at the first error of its body. The counter stays
  below \<open>n\<close>, so \<open>++i\<close> cannot overflow.
\<close>

function for_range :: "int \<Rightarrow> int \<Rightarrow> (int \<Rightarrow> 's \<Rightarrow> error + 's) \<Rightarrow> 's \<Rightarrow> error + 's" where
  "for_range i n body s =
     (if i < n
      then (case body i s of Inl e \<Rightarrow> Inl e | Inr s' \<Rightarrow> for_range (i + 1) n body s')
      else Inr s)"
  by pat_completeness auto
termination
  by (relation "measure (\<lambda>(i, n, body, s). nat (n - i))") auto

declare for_range.simps [simp del]

text \<open>\<open>std::clamp(v, lo, hi)\<close> on \<open>int\<close>.\<close>

definition clamp_int :: "int \<Rightarrow> int \<Rightarrow> int \<Rightarrow> int" where
  "clamp_int v lo hi = (if v < lo then lo else if hi < v then hi else v)"

section \<open>The \<open>int\<close> arithmetic of the spatial filters\<close>

text \<open>
  The parameters \<open>width\<close> and \<open>height\<close> are \<open>unsigned int\<close>: 32-bit words. Both
  spatial filters begin with \<open>static_cast<int>(width)\<close> and
  \<open>static_cast<int>(height)\<close>; the conversion keeps the value modulo \<open>2^32\<close>
  (the Makefile builds with \<open>-std=c++23\<close>), which is the signed reading \<open>sint\<close>
  of the word, negative from \<open>2^31\<close> on. Everything
  the filters then compute from \<open>w\<close> and \<open>h\<close> (the pixel count, the coordinates, the
  bounds of the clamps and the indices) is 32-bit \<open>int\<close> arithmetic. An \<open>int\<close>
  operation has its mathematical value when that lies between \<open>INT_MIN\<close> and
  \<open>INT_MAX\<close>; otherwise it is a signed overflow, which is undefined behaviour, and the
  model stops with \<open>SignedOverflow\<close>.
\<close>

type_synonym uint32 = "32 word"

text \<open>
  A buffer is a \<open>std::vector<unsigned char>\<close>, which holds at most \<open>max_size()\<close>
  bytes: \<open>PTRDIFF_MAX\<close>, that is \<open>2^63 - 1\<close>, where \<open>size_t\<close> has 64 bits.
\<close>

definition vector_max_size :: nat where
  "vector_max_size = 9223372036854775807"

definition INT_MAX :: int where
  "INT_MAX = 2147483647"

definition INT_MIN :: int where
  "INT_MIN = - 2147483648"

definition int_result :: "int \<Rightarrow> error + int" where
  "int_result v = (if INT_MIN \<le> v \<and> v \<le> INT_MAX then Inr v else Inl SignedOverflow)"

definition add_int :: "int \<Rightarrow> int \<Rightarrow> error + int" where
  "add_int a b = int_result (a + b)"

definition sub_int :: "int \<Rightarrow> int \<Rightarrow> error + int" where
  "sub_int a b = int_result (a - b)"

definition mul_int :: "int \<Rightarrow> int \<Rightarrow> error + int" where
  "mul_int a b = int_result (a * b)"

text \<open>
  The index expression \<open>(row * w + col) * channels + c\<close> of the blur, one \<open>int\<close>
  operation after the other.
\<close>

definition sample_index :: "int \<Rightarrow> int \<Rightarrow> int \<Rightarrow> int \<Rightarrow> int \<Rightarrow> error + int" where
  "sample_index row w col channels c =
     bnd (mul_int row w) (\<lambda>a.
     bnd (add_int a col) (\<lambda>cell.
     bnd (mul_int cell channels) (\<lambda>base.
       add_int base c)))"

section \<open>Laplacian\<close>

text \<open>
  The lambda \<open>get_grey\<close>, with the captured \<open>grey\<close>, \<open>w\<close> and \<open>h\<close> as parameters:
  the two clamps, then the read at \<open>py * w + px\<close>. It is only called inside the two
  loops, where \<open>w\<close> and \<open>h\<close> are at least 1 and the bounds of each clamp are in order.
\<close>

definition get_grey :: "byte list \<Rightarrow> int \<Rightarrow> int \<Rightarrow> int \<Rightarrow> int \<Rightarrow> error + int" where
  "get_grey grey w h px py =
     bnd (sub_int w 1) (\<lambda>w1. let px = clamp_int px 0 w1 in
     bnd (sub_int h 1) (\<lambda>h1. let py = clamp_int py 0 h1 in
     bnd (mul_int py w) (\<lambda>row.
     bnd (add_int row px) (\<lambda>idx.
     bnd (rd grey idx) (\<lambda>g. Inr (uint g))))))"

text \<open>
  The body of the loop over \<open>x\<close>: the five accumulations into \<open>sum\<close>, in source order,
  and the store at \<open>y * w + x\<close>. The five values lie in \<open>[0, 255]\<close>, so \<open>sum\<close>
  stays within \<open>[-1020, 1020]\<close> and its arithmetic cannot overflow.
\<close>

definition laplacian_body :: "byte list \<Rightarrow> int \<Rightarrow> int \<Rightarrow> int \<Rightarrow> int \<Rightarrow> byte list \<Rightarrow> error + byte list" where
  "laplacian_body grey w h y x output =
     bnd (sub_int y 1) (\<lambda>y0.
     bnd (get_grey grey w h x y0) (\<lambda>g1.
     bnd (sub_int x 1) (\<lambda>x0.
     bnd (get_grey grey w h x0 y) (\<lambda>g2.
     bnd (get_grey grey w h x y) (\<lambda>g3.
     bnd (add_int x 1) (\<lambda>x1.
     bnd (get_grey grey w h x1 y) (\<lambda>g4.
     bnd (add_int y 1) (\<lambda>y1.
     bnd (get_grey grey w h x y1) (\<lambda>g5.
       let sum = 0;
           sum = sum + - 1 * g1;
           sum = sum + - 1 * g2;
           sum = sum + 4 * g3;
           sum = sum + - 1 * g4;
           sum = sum + - 1 * g5;
           sum = clamp_int \<bar>sum\<bar> 0 255
       in bnd (mul_int y w) (\<lambda>row.
          bnd (add_int row x) (\<lambda>idx.
            wr output idx (word_of_int sum))))))))))))"

text \<open>
  The body of the greyscale loop of the Laplacian, \<open>for (size_t i = 0; i < pixels; ++i)\<close>.
  Its counter and \<open>idx = i * 3\<close> are \<open>size_t\<close> values below \<open>3 * INT_MAX + 3\<close>, far
  from the range of \<open>size_t\<close>.
\<close>

definition laplacian_grey_body :: "byte list \<Rightarrow> int \<Rightarrow> byte list \<Rightarrow> error + byte list" where
  "laplacian_grey_body src i grey =
     (let idx = i * 3 in
      bnd (rd src idx) (\<lambda>r.
      bnd (rd src (idx + 1)) (\<lambda>g.
      bnd (rd src (idx + 2)) (\<lambda>b.
        wr grey i (luminance r g b)))))"

text \<open>
  \<open>pixels = static_cast<std::size_t>(w * h)\<close>: the product is an \<open>int\<close> product. A
  negative product converts to a \<open>size_t\<close> within \<open>2^31\<close> of the top of its range,
  more than any vector can hold, and \<open>std::vector<unsigned char> grey(pixels)\<close>
  throws \<open>std::length_error\<close>.
\<close>

definition apply_laplacian_rgb :: "byte list \<Rightarrow> uint32 \<Rightarrow> uint32 \<Rightarrow> error + byte list" where
  "apply_laplacian_rgb bytes width height =
     (if length bytes mod 3 \<noteq> 0 then Inl InvalidArgument
      else
        let w = sint width;
            h = sint height
        in bnd (mul_int w h) (\<lambda>wh.
             if wh < 0 then Inl LengthError
             else
               let pixels = wh
               in bnd (for_range 0 pixels (laplacian_grey_body bytes) (replicate (nat pixels) 0))
                    (\<lambda>grey.
                       for_range 0 h (\<lambda>y. for_range 0 w (\<lambda>x. laplacian_body grey w h y x))
                         (replicate (nat pixels) 0))))"

section \<open>Gaussian blur\<close>

text \<open>
  The blur computes in \<open>double\<close>. Its arithmetic is a parameter of the model: a record of
  the operations the source uses, over an arbitrary carrier \<open>'d\<close>. A theorem that holds
  for every such record holds for IEEE binary64 in particular, whatever its rounding.
  \<open>fp_of_int\<close> is the conversion of an integer value (the literals \<open>10.0\<close>, \<open>3.0\<close>,
  \<open>2.0\<close>, \<open>0.0\<close>, \<open>255.0\<close> and the converted \<open>unsigned\<close>, \<open>int\<close> and \<open>unsigned char\<close>
  operands), \<open>fp_tenth\<close> the literal \<open>0.1\<close>, and \<open>fp_trunc\<close> the integer that a
  conversion to an integer type yields when that integer fits the target type.
\<close>

record 'd fp_ops =
  fp_of_int :: "int \<Rightarrow> 'd"
  fp_tenth :: "'d"
  fp_add :: "'d \<Rightarrow> 'd \<Rightarrow> 'd"
  fp_mul :: "'d \<Rightarrow> 'd \<Rightarrow> 'd"
  fp_div :: "'d \<Rightarrow> 'd \<Rightarrow> 'd"
  fp_less :: "'d \<Rightarrow> 'd \<Rightarrow> bool"
  fp_exp :: "'d \<Rightarrow> 'd"
  fp_ceil :: "'d \<Rightarrow> 'd"
  fp_trunc :: "'d \<Rightarrow> int"

text \<open>\<open>std::clamp(v, lo, hi)\<close> on \<open>double\<close>.\<close>

definition clamp_fp :: "'d fp_ops \<Rightarrow> 'd \<Rightarrow> 'd \<Rightarrow> 'd \<Rightarrow> 'd" where
  "clamp_fp ops v lo hi = (if fp_less ops v lo then lo else if fp_less ops hi v then hi else v)"

text \<open>
  \<open>static_cast<unsigned char>(std::clamp(sum, 0.0, 255.0))\<close>. The clamped value lies
  between 0 and 255, where the conversion truncates.
\<close>

definition to_sample :: "'d fp_ops \<Rightarrow> 'd \<Rightarrow> byte" where
  "to_sample ops v =
     word_of_int (fp_trunc ops (clamp_fp ops v (fp_of_int ops 0) (fp_of_int ops 255)))"

text \<open>
  The integer value of \<open>std::ceil(sigma * 3.0)\<close>, before \<open>static_cast<int>\<close> checks
  that it fits.
\<close>

definition ceil_3sigma :: "'d fp_ops \<Rightarrow> 'd \<Rightarrow> int" where
  "ceil_3sigma ops sigma = fp_trunc ops (fp_ceil ops (fp_mul ops sigma (fp_of_int ops 3)))"

text \<open>
  The first loop of \<open>generate_gaussian_kernel\<close> assigns \<open>kernel[i]\<close> and \<open>sum\<close>. The
  product \<open>x * x\<close> is an \<open>int\<close> product: beyond \<open>INT_MAX\<close> it is a signed overflow.
\<close>

definition kernel_body :: "'d fp_ops \<Rightarrow> 'd \<Rightarrow> int \<Rightarrow> int \<Rightarrow> 'd list \<times> 'd \<Rightarrow> error + 'd list \<times> 'd" where
  "kernel_body ops sigma radius i st =
     (let (kernel, sum) = st;
          x = i - radius
      in if INT_MAX < x * x then Inl SignedOverflow
         else
           let value = fp_exp ops (fp_div ops (fp_of_int ops (- (x * x)))
                         (fp_mul ops (fp_mul ops (fp_of_int ops 2) sigma) sigma))
           in bnd (wr kernel i value) (\<lambda>kernel. Inr (kernel, fp_add ops sum value)))"

definition generate_gaussian_kernel :: "'d fp_ops \<Rightarrow> 'd \<Rightarrow> error + 'd list \<times> int" where
  "generate_gaussian_kernel ops sigma =
     (let c = ceil_3sigma ops sigma
      in if c < INT_MIN \<or> INT_MAX < c then Inl FloatCastOverflow
         else
           let radius = max 1 c
           in if INT_MAX < 2 * radius + 1 then Inl SignedOverflow
              else
                let size = 2 * radius + 1
                in bnd (for_range 0 size (kernel_body ops sigma radius)
                          (replicate (nat size) (fp_of_int ops 0), fp_of_int ops 0))
                     (\<lambda>(kernel, sum). Inr (map (\<lambda>k. fp_div ops k sum) kernel, radius)))"

text \<open>
  The innermost loops \<open>for (int k = -radius; k <= radius; ++k)\<close> of the two passes and
  the store that follows each. \<open>radius + 1\<close> cannot overflow: a radius that reaches
  this point has passed the check on \<open>2 * radius + 1\<close>. The sampling coordinate
  \<open>x + k\<close> or \<open>y + k\<close>, the bound \<open>w - 1\<close> or \<open>h - 1\<close> of its clamp, the kernel
  index \<open>k + radius\<close> and the two sample indices are \<open>int\<close> expressions. \<open>src\<close> is
  the raw pointer \<open>bytes.data()\<close>, \<open>temp\<close> and \<open>output\<close> are vectors indexed with
  \<open>operator[]\<close>: none of the accesses is checked by the source.
\<close>

definition gaussian_h_body ::
    "'d fp_ops \<Rightarrow> 'd list \<Rightarrow> int \<Rightarrow> byte list \<Rightarrow> int \<Rightarrow> int \<Rightarrow> int \<Rightarrow> int \<Rightarrow> int \<Rightarrow> byte list \<Rightarrow> error + byte list" where
  "gaussian_h_body ops kern radius src w channels y x c temp =
     bnd (for_range (- radius) (radius + 1)
            (\<lambda>k sum.
               bnd (add_int x k) (\<lambda>xk.
               bnd (sub_int w 1) (\<lambda>w1.
                 let sx = clamp_int xk 0 w1
                 in bnd (add_int k radius) (\<lambda>ki.
                    bnd (rd kern ki) (\<lambda>kv.
                    bnd (sample_index y w sx channels c) (\<lambda>idx.
                    bnd (rd src idx) (\<lambda>sv.
                      Inr (fp_add ops sum (fp_mul ops kv (fp_of_int ops (uint sv)))))))))))
            (fp_of_int ops 0))
       (\<lambda>sum.
          bnd (sample_index y w x channels c) (\<lambda>idx.
            wr temp idx (to_sample ops sum)))"

definition gaussian_v_body ::
    "'d fp_ops \<Rightarrow> 'd list \<Rightarrow> int \<Rightarrow> byte list \<Rightarrow> int \<Rightarrow> int \<Rightarrow> int \<Rightarrow> int \<Rightarrow> int \<Rightarrow> int \<Rightarrow> byte list \<Rightarrow> error + byte list" where
  "gaussian_v_body ops kern radius temp w h channels y x c output =
     bnd (for_range (- radius) (radius + 1)
            (\<lambda>k sum.
               bnd (add_int y k) (\<lambda>yk.
               bnd (sub_int h 1) (\<lambda>h1.
                 let sy = clamp_int yk 0 h1
                 in bnd (add_int k radius) (\<lambda>ki.
                    bnd (rd kern ki) (\<lambda>kv.
                    bnd (sample_index sy w x channels c) (\<lambda>idx.
                    bnd (rd temp idx) (\<lambda>sv.
                      Inr (fp_add ops sum (fp_mul ops kv (fp_of_int ops (uint sv)))))))))))
            (fp_of_int ops 0))
       (\<lambda>sum.
          bnd (sample_index y w x channels c) (\<lambda>idx.
            wr output idx (to_sample ops sum)))"

text \<open>
  \<open>sigma = blur_strength / 10.0\<close>, raised to \<open>0.1\<close> when it is smaller. The strength
  is an \<open>unsigned int\<close> that is only converted to \<open>double\<close>, which is exact; the
  model takes its value as a natural number.
\<close>

definition blur_sigma :: "'d fp_ops \<Rightarrow> nat \<Rightarrow> 'd" where
  "blur_sigma ops blur_strength =
     (let sigma = fp_div ops (fp_of_int ops (int blur_strength)) (fp_of_int ops 10)
      in if fp_less ops sigma (fp_tenth ops) then fp_tenth ops else sigma)"

text \<open>
  The two passes. With a width or height from \<open>2^31\<close> on, \<open>w\<close> or \<open>h\<close> is negative
  and the loops over it do not run. \<open>temp\<close> and \<open>output\<close> have the size of the
  input.
\<close>

definition apply_gaussian_rgb :: "'d fp_ops \<Rightarrow> byte list \<Rightarrow> uint32 \<Rightarrow> uint32 \<Rightarrow> nat \<Rightarrow> error + byte list" where
  "apply_gaussian_rgb ops bytes width height blur_strength =
     (if length bytes mod 3 \<noteq> 0 then Inl InvalidArgument
      else
        let w = sint width;
            h = sint height;
            channels = 3;
            sigma = blur_sigma ops blur_strength
        in bnd (generate_gaussian_kernel ops sigma) (\<lambda>(kernel, radius).
           bnd (for_range 0 h (\<lambda>y. for_range 0 w (\<lambda>x. for_range 0 channels
                    (\<lambda>c. gaussian_h_body ops kernel radius bytes w channels y x c)))
                  (replicate (length bytes) 0))
             (\<lambda>temp.
                for_range 0 h (\<lambda>y. for_range 0 w (\<lambda>x. for_range 0 channels
                    (\<lambda>c. gaussian_v_body ops kernel radius temp w h channels y x c)))
                  (replicate (length bytes) 0))))"

text \<open>
  A concrete arithmetic, for evaluating the model at an input: the real numbers with
  exact operations. Binary64 agrees with it wherever every operand and every result
  of a computation is a number that binary64 represents exactly, since IEEE
  operations round the exact result. The evaluations at the failing inputs in this
  theory pass only through such numbers: integers and halves of integers far below
  \<open>2^53\<close>. The literal \<open>0.1\<close> only occurs in comparisons with them. Lemmas
  about the weights of a kernel in this arithmetic are statements about exact
  arithmetic, not about binary64.
\<close>

definition exact_ops :: "real fp_ops" where
  "exact_ops =
     \<lparr>fp_of_int = of_int, fp_tenth = 1 / 10, fp_add = (+), fp_mul = (*), fp_div = (/),
      fp_less = (<), fp_exp = exp, fp_ceil = (\<lambda>v. of_int \<lceil>v\<rceil>),
      fp_trunc = (\<lambda>v. if 0 \<le> v then \<lfloor>v\<rfloor> else \<lceil>v\<rceil>)\<rparr>"

section \<open>The transforms in the words of the specification\<close>

text \<open>
  The specification allows a plain scalar loop as a conforming implementation and asks the
  grouped code to be byte-identical to it. The two reference transforms below follow
  these words: the same length check, and then the one-at-a-time loop of the source
  started at index 0, with no grouped loop in front of it.
\<close>

definition greyscale_scalar :: "byte list \<Rightarrow> error + byte list" where
  "greyscale_scalar bytes =
     (if length bytes mod 3 \<noteq> 0 then Inl InvalidArgument
      else Inr (grey_tail_loop bytes (length bytes div 3) 0 (replicate (length bytes div 3) 0)))"

definition invert_scalar :: "byte list \<Rightarrow> error + byte list" where
  "invert_scalar bytes =
     (if length bytes mod 3 \<noteq> 0 then Inl InvalidArgument
      else Inr (invert_tail_loop bytes (length bytes) 0 (replicate (length bytes) 0)))"

text \<open>
  Edge-clamped sampling replaces a coordinate outside \<open>[0, n - 1]\<close> by the nearest
  coordinate inside.
\<close>

definition edge_clamp :: "int \<Rightarrow> int \<Rightarrow> int" where
  "edge_clamp v n = max 0 (min (n - 1) v)"

text \<open>
  The Laplacian sample of pixel \<open>(x, y)\<close>: \<open>clamp(|4 center - top - bottom - left - right|, 0, 255)\<close>
  over the greyscale buffer, every neighbour read with edge-clamped coordinates.
\<close>

definition neighbour :: "byte list \<Rightarrow> int \<Rightarrow> int \<Rightarrow> int \<Rightarrow> int \<Rightarrow> int" where
  "neighbour grey w h px py = uint (grey ! nat (edge_clamp py h * w + edge_clamp px w))"

definition laplacian_sample :: "byte list \<Rightarrow> int \<Rightarrow> int \<Rightarrow> int \<Rightarrow> int \<Rightarrow> int" where
  "laplacian_sample grey w h x y =
     min 255 (max 0 \<bar>4 * neighbour grey w h x y - neighbour grey w h x (y - 1)
       - neighbour grey w h x (y + 1) - neighbour grey w h (x - 1) y
       - neighbour grey w h (x + 1) y\<bar>)"

text \<open>
  The weight of offset \<open>i\<close> before normalisation, \<open>exp(-(i * i) / (2 sigma sigma))\<close>.
\<close>

definition gauss_weight :: "'d fp_ops \<Rightarrow> 'd \<Rightarrow> int \<Rightarrow> 'd" where
  "gauss_weight ops sigma i =
     fp_exp ops (fp_div ops (fp_of_int ops (- (i * i)))
       (fp_mul ops (fp_mul ops (fp_of_int ops 2) sigma) sigma))"

text \<open>
  One convolution sum: the kernel taps from offset \<open>- radius\<close> to \<open>radius\<close>, each
  multiplied with the sample at that offset, added up from \<open>0.0\<close> in this order. The
  horizontal pass samples the source along \<open>x\<close>, the vertical pass samples its
  argument along \<open>y\<close>; both clamp the sum to \<open>[0, 255]\<close> and truncate it. Sample
  \<open>i\<close> of a buffer belongs to channel \<open>i mod 3\<close> of pixel \<open>i div 3\<close>, which sits in
  column \<open>(i div 3) mod w\<close> of row \<open>(i div 3) div w\<close>.
\<close>

definition convolve :: "'d fp_ops \<Rightarrow> 'd list \<Rightarrow> int \<Rightarrow> (int \<Rightarrow> byte) \<Rightarrow> 'd" where
  "convolve ops kern radius sample =
     foldl (\<lambda>acc k. fp_add ops acc
              (fp_mul ops (kern ! nat (k + radius)) (fp_of_int ops (uint (sample k)))))
       (fp_of_int ops 0) [- radius..radius]"

definition horizontal_pass :: "'d fp_ops \<Rightarrow> 'd list \<Rightarrow> int \<Rightarrow> byte list \<Rightarrow> int \<Rightarrow> int \<Rightarrow> byte list" where
  "horizontal_pass ops kern radius src w h =
     map (\<lambda>i. let c = int i mod 3; x = (int i div 3) mod w; y = (int i div 3) div w
              in to_sample ops (convolve ops kern radius
                   (\<lambda>k. src ! nat ((y * w + edge_clamp (x + k) w) * 3 + c))))
       [0..<nat (w * h * 3)]"

definition vertical_pass :: "'d fp_ops \<Rightarrow> 'd list \<Rightarrow> int \<Rightarrow> byte list \<Rightarrow> int \<Rightarrow> int \<Rightarrow> byte list" where
  "vertical_pass ops kern radius src w h =
     map (\<lambda>i. let c = int i mod 3; x = (int i div 3) mod w; y = (int i div 3) div w
              in to_sample ops (convolve ops kern radius
                   (\<lambda>k. src ! nat ((edge_clamp (y + k) h * w + x) * 3 + c))))
       [0..<nat (w * h * 3)]"

text \<open>
  Blurring a constant field: the sample one pass stores where every tap of the
  convolution reads the same value \<open>v\<close>.
\<close>

definition constant_pass_sample :: "'d fp_ops \<Rightarrow> 'd list \<Rightarrow> int \<Rightarrow> byte \<Rightarrow> byte" where
  "constant_pass_sample ops kern radius v = to_sample ops (convolve ops kern radius (\<lambda>k. v))"

section \<open>Greyscale and invert: the loops compute the per-sample formulas\<close>

lemma length_greys_loop: "length (greys_loop src i j greys) = length greys"
  by (induction src i j greys rule: greys_loop.induct)
     (subst greys_loop.simps, simp)

lemma greys_loop_nth:
  "k < length greys \<Longrightarrow> length greys = 8 \<Longrightarrow>
   greys_loop src i j greys ! k = (if j \<le> k then grey_at src ((i + k) * 3) else greys ! k)"
proof (induction src i j greys rule: greys_loop.induct)
  case (1 src i j greys)
  show ?case
  proof (cases "j < 8")
    case True
    have eq: "j = k" if "j \<le> k" "\<not> Suc j \<le> k"
      using that by arith
    from True 1 show ?thesis
      by (subst greys_loop.simps) (simp add: nth_list_update, metis eq)
  next
    case False
    with 1 show ?thesis
      by (subst greys_loop.simps) simp
  qed
qed

lemma length_store_bytes:
  "off + length vs \<le> length mem \<Longrightarrow> length (store_bytes mem off vs) = length mem"
  by (simp add: store_bytes_def)

lemma store_bytes_nth:
  "off + length vs \<le> length mem \<Longrightarrow> k < length mem \<Longrightarrow>
   store_bytes mem off vs ! k =
     (if off \<le> k \<and> k < off + length vs then vs ! (k - off) else mem ! k)"
  by (auto simp: store_bytes_def nth_append)

lemma grey_group_step_nth:
  assumes "i + 8 \<le> length dst" "k < length dst"
  shows "mm_storel_epi64 dst i (mm_loadl_epi64 (greys_loop src i 0 (replicate 8 0)) 0) ! k =
         (if i \<le> k \<and> k < i + 8 then grey_at src (k * 3) else dst ! k)"
  using assms
  by (auto simp: mm_storel_epi64_def mm_loadl_epi64_def store_bytes_nth length_greys_loop
      greys_loop_nth)

lemma grey_group_step_length:
  "i + 8 \<le> length dst \<Longrightarrow>
   length (mm_storel_epi64 dst i (mm_loadl_epi64 (greys_loop src i 0 (replicate 8 0)) 0)) = length dst"
  by (simp add: mm_storel_epi64_def mm_loadl_epi64_def length_store_bytes length_greys_loop)

lemma group_index_step:
  fixes i :: nat
  assumes "0 < n" "i + n \<le> p"
  shows "i + n + n * ((p - (i + n)) div n) = i + n * ((p - i) div n)"
proof -
  from assms have "p - i = (p - (i + n)) + n" by simp
  then have "(p - i) div n = (p - (i + n)) div n + 1"
    using assms(1) by (metis div_add_self2 less_numeral_extra(3))
  then show ?thesis by simp
qed

lemma grey_group_loop_inv:
  "length dst = pixels \<Longrightarrow> \<forall>k<i. dst ! k = grey_at src (k * 3) \<Longrightarrow>
   grey_group_loop src pixels i dst = (i', dst') \<Longrightarrow>
   length dst' = pixels \<and> (\<forall>k<i'. dst' ! k = grey_at src (k * 3)) \<and>
   i' = i + 8 * ((pixels - i) div 8)"
proof (induction src pixels i dst rule: grey_group_loop.induct)
  case (1 src pixels i dst)
  show ?case
  proof (cases "i + 8 \<le> pixels")
    case True
    let ?d = "mm_storel_epi64 dst i (mm_loadl_epi64 (greys_loop src i 0 (replicate 8 0)) 0)"
    from True 1(2) have len: "length ?d = pixels"
      by (simp add: grey_group_step_length)
    have pre: "\<forall>k<i + 8. ?d ! k = grey_at src (k * 3)"
      using True 1(2,3) by (simp add: grey_group_step_nth)
    have "grey_group_loop src pixels i dst = grey_group_loop src pixels (i + 8) ?d"
      using True by (subst grey_group_loop.simps) simp
    with 1(4) have run: "grey_group_loop src pixels (i + 8) ?d = (i', dst')"
      by simp
    note ih = 1(1)[OF True len pre run]
    have "i + 8 + 8 * ((pixels - (i + 8)) div 8) = i + 8 * ((pixels - i) div 8)"
      using True by (intro group_index_step) simp_all
    with ih show ?thesis by simp
  next
    case False
    have "grey_group_loop src pixels i dst = (i, dst)"
      using False by (subst grey_group_loop.simps) simp
    with 1(4) have "i' = i" "dst' = dst" by simp_all
    moreover have "(pixels - i) div 8 = 0" using False by simp
    ultimately show ?thesis using 1(2,3) by simp
  qed
qed

lemma grey_tail_loop_inv:
  "length dst = pixels \<Longrightarrow> i \<le> pixels \<Longrightarrow> \<forall>k<i. dst ! k = grey_at src (k * 3) \<Longrightarrow>
   grey_tail_loop src pixels i dst = map (\<lambda>k. grey_at src (k * 3)) [0..<pixels]"
proof (induction src pixels i dst rule: grey_tail_loop.induct)
  case (1 src pixels i dst)
  show ?case
  proof (cases "i < pixels")
    case True
    have "\<forall>k<i + 1. dst[i := grey_at src (i * 3)] ! k = grey_at src (k * 3)"
      using 1(2,4) True by (auto simp: nth_list_update)
    with 1(1)[OF True] 1(2) True show ?thesis
      by (subst grey_tail_loop.simps) simp
  next
    case False
    with 1 have "dst = map (\<lambda>k. grey_at src (k * 3)) [0..<pixels]"
      by (intro nth_equalityI) auto
    with False show ?thesis
      by (subst grey_tail_loop.simps) simp
  qed
qed

lemma apply_greyscale_rgb_simd_map:
  "length bytes mod 3 = 0 \<Longrightarrow>
   apply_greyscale_rgb_simd bytes =
     Inr (map (\<lambda>k. grey_at bytes (k * 3)) [0..<length bytes div 3])"
proof -
  assume m: "length bytes mod 3 = 0"
  obtain i dst where g: "grey_group_loop bytes (length bytes div 3) 0
      (replicate (length bytes div 3) 0) = (i, dst)"
    by (cases "grey_group_loop bytes (length bytes div 3) 0 (replicate (length bytes div 3) 0)")
  from grey_group_loop_inv[OF _ _ g]
  have "length dst = length bytes div 3" "\<forall>k<i. dst ! k = grey_at bytes (k * 3)"
    "i \<le> length bytes div 3" by simp_all
  then show ?thesis using m g
    by (simp add: apply_greyscale_rgb_simd_def grey_tail_loop_inv)
qed

lemma invert_byte_eq: "invert_byte b = 255 - b"
  by (simp add: invert_byte_def)

lemma invert_byte_invert_byte: "invert_byte (invert_byte b) = b"
  by (simp add: invert_byte_eq)

lemma uint_invert_byte: "uint (invert_byte b) = 255 - uint b"
proof -
  have lt: "uint b < 256" using uint_lt2p[of b] by simp
  have ge: "0 \<le> uint b" by simp
  have "(255 - uint b) mod 256 = 255 - uint b"
    using lt ge by (intro mod_pos_pos_trivial; linarith)
  thus ?thesis unfolding invert_byte_def uint_word_of_int by simp
qed

lemma uint_luminance:
  "uint (luminance r g b) = (77 * uint r + 150 * uint g + 29 * uint b + 128) div 256"
proof -
  let ?v = "77 * uint r + 150 * uint g + 29 * uint b + 128"
  have lt: "uint r < 256" "uint g < 256" "uint b < 256"
    using uint_lt2p[of r] uint_lt2p[of g] uint_lt2p[of b] by simp_all
  have ge: "0 \<le> uint r" "0 \<le> uint g" "0 \<le> uint b" by simp_all
  have "0 \<le> ?v" "?v < 65536" using lt ge by linarith+
  hence "0 \<le> ?v div 256" "?v div 256 < 256" by arith+
  hence "(?v div 256) mod 256 = ?v div 256"
    by (intro mod_pos_pos_trivial)
  thus ?thesis unfolding luminance_def uint_word_of_int drop_bit_eq_div by simp
qed

lemma invert_group_step_length:
  "i + 16 \<le> length dst \<Longrightarrow> i + 16 \<le> length src \<Longrightarrow>
   length (mm_storeu_si128 dst i (mm_sub_epi8 (mm_set1_epi8 255) (mm_loadu_si128 src i))) = length dst"
  by (simp add: mm_storeu_si128_def mm_sub_epi8_def mm_set1_epi8_def mm_loadu_si128_def
      length_store_bytes)

lemma invert_group_step_nth:
  assumes "i + 16 \<le> length dst" "i + 16 \<le> length src" "k < length dst"
  shows "mm_storeu_si128 dst i (mm_sub_epi8 (mm_set1_epi8 255) (mm_loadu_si128 src i)) ! k =
         (if i \<le> k \<and> k < i + 16 then invert_byte (src ! k) else dst ! k)"
  using assms
  by (auto simp: mm_storeu_si128_def mm_sub_epi8_def mm_set1_epi8_def mm_loadu_si128_def
      store_bytes_nth invert_byte_eq)

lemma invert_group_loop_inv:
  "length dst = tot \<Longrightarrow> length src = tot \<Longrightarrow> \<forall>k<i. dst ! k = invert_byte (src ! k) \<Longrightarrow>
   invert_group_loop src tot (mm_set1_epi8 255) i dst = (i', dst') \<Longrightarrow>
   length dst' = tot \<and> (\<forall>k<i'. dst' ! k = invert_byte (src ! k)) \<and>
   i' = i + 16 * ((tot - i) div 16)"
proof (induction src tot "mm_set1_epi8 255" i dst rule: invert_group_loop.induct)
  case (1 src tot i dst)
  show ?case
  proof (cases "i + 16 \<le> tot")
    case True
    let ?d = "mm_storeu_si128 dst i (mm_sub_epi8 (mm_set1_epi8 255) (mm_loadu_si128 src i))"
    from True 1(2,3) have len: "length ?d = tot"
      by (simp add: invert_group_step_length)
    have pre: "\<forall>k<i + 16. ?d ! k = invert_byte (src ! k)"
      using True 1(2,3,4) by (simp add: invert_group_step_nth)
    have "invert_group_loop src tot (mm_set1_epi8 255) i dst =
        invert_group_loop src tot (mm_set1_epi8 255) (i + 16) ?d"
      using True by (subst invert_group_loop.simps) simp
    with 1(5) have run: "invert_group_loop src tot (mm_set1_epi8 255) (i + 16) ?d = (i', dst')"
      by simp
    note ih = 1(1)[OF True len 1(3) pre run]
    have "i + 16 + 16 * ((tot - (i + 16)) div 16) = i + 16 * ((tot - i) div 16)"
      using True by (intro group_index_step) simp_all
    with ih show ?thesis by simp
  next
    case False
    have "invert_group_loop src tot (mm_set1_epi8 255) i dst = (i, dst)"
      using False by (subst invert_group_loop.simps) simp
    with 1(5) have "i' = i" "dst' = dst" by simp_all
    moreover have "(tot - i) div 16 = 0" using False by simp
    ultimately show ?thesis using 1(2,4) by simp
  qed
qed

lemma invert_tail_loop_inv:
  "length dst = tot \<Longrightarrow> i \<le> tot \<Longrightarrow> \<forall>k<i. dst ! k = invert_byte (src ! k) \<Longrightarrow>
   invert_tail_loop src tot i dst = map (\<lambda>k. invert_byte (src ! k)) [0..<tot]"
proof (induction src tot i dst rule: invert_tail_loop.induct)
  case (1 src tot i dst)
  show ?case
  proof (cases "i < tot")
    case True
    have "\<forall>k<i + 1. dst[i := invert_byte (src ! i)] ! k = invert_byte (src ! k)"
      using 1(2,4) True by (auto simp: nth_list_update)
    with 1(1)[OF True] 1(2) True show ?thesis
      by (subst invert_tail_loop.simps) simp
  next
    case False
    with 1 have "dst = map (\<lambda>k. invert_byte (src ! k)) [0..<tot]"
      by (intro nth_equalityI) auto
    with False show ?thesis
      by (subst invert_tail_loop.simps) simp
  qed
qed

lemma apply_invert_rgb_simd_map:
  assumes "length bytes mod 3 = 0"
  shows "apply_invert_rgb_simd bytes = Inr (map invert_byte bytes)"
proof -
  obtain i dst where g: "invert_group_loop bytes (length bytes) (mm_set1_epi8 255) 0
      (replicate (length bytes) 0) = (i, dst)"
    by (cases "invert_group_loop bytes (length bytes) (mm_set1_epi8 255) 0
      (replicate (length bytes) 0)")
  from invert_group_loop_inv[OF _ _ _ g]
  have "length dst = length bytes" "\<forall>k<i. dst ! k = invert_byte (bytes ! k)"
    "i = 16 * (length bytes div 16)" by simp_all
  moreover from this have "i \<le> length bytes" by simp
  moreover have "map (\<lambda>k. invert_byte (bytes ! k)) [0..<length bytes] = map invert_byte bytes"
    by (intro nth_equalityI) simp_all
  ultimately show ?thesis using assms g
    by (simp add: apply_invert_rgb_simd_def invert_tail_loop_inv)
qed

lemma grey_at_uint:
  "uint (grey_at src idx) =
     (77 * uint (src ! idx) + 150 * uint (src ! (idx + 1)) + 29 * uint (src ! (idx + 2)) + 128) div 256"
  by (simp add: grey_at_def uint_luminance)

text \<open>
  Claim C1. For every RGB buffer whose length is a multiple of 3 the greyscale transform
  returns a buffer with one sample per pixel, and the sample of pixel \<open>i\<close> is
  \<open>(77 R + 150 G + 29 B + 128) >> 8\<close> of its three source samples; full white maps
  to 255 and full black to 0.
\<close>

theorem greyscale_length_and_samples:
  "(length B mod 3 = 0 \<longrightarrow>
      (\<exists>out. apply_greyscale_rgb_simd B = Inr out \<and> length out = length B div 3 \<and>
         (\<forall>i<length B div 3.
            uint (out ! i) =
              (77 * uint (B ! (3 * i)) + 150 * uint (B ! (3 * i + 1)) + 29 * uint (B ! (3 * i + 2))
                 + 128) div 2 ^ 8))) \<and>
   apply_greyscale_rgb_simd [255, 255, 255] = Inr [255] \<and>
   apply_greyscale_rgb_simd [0, 0, 0] = Inr [0]"
proof (intro conjI impI)
  assume m: "length B mod 3 = 0"
  show "\<exists>out. apply_greyscale_rgb_simd B = Inr out \<and> length out = length B div 3 \<and>
         (\<forall>i<length B div 3.
            uint (out ! i) =
              (77 * uint (B ! (3 * i)) + 150 * uint (B ! (3 * i + 1)) + 29 * uint (B ! (3 * i + 2))
                 + 128) div 2 ^ 8)"
    by (simp add: apply_greyscale_rgb_simd_map[OF m] grey_at_uint mult.commute)
next
  show "apply_greyscale_rgb_simd [255, 255, 255] = Inr [255]"
    by (simp add: apply_greyscale_rgb_simd_map grey_at_def luminance_def)
next
  show "apply_greyscale_rgb_simd [0, 0, 0] = Inr [0]"
    by (simp add: apply_greyscale_rgb_simd_map grey_at_def luminance_def)
qed

text \<open>The theorem of claim C1 at a two-pixel buffer.\<close>

theorem greyscale_length_and_samples_witness:
  "length [10, 20, 30, 40, 50, 60 :: byte] mod 3 = 0 \<and>
   (\<exists>out. apply_greyscale_rgb_simd [10, 20, 30, 40, 50, 60] = Inr out \<and> length out = 2 \<and>
      uint (out ! 0) = 18 \<and> uint (out ! 1) = 48)"
  using greyscale_length_and_samples [of "[10, 20, 30, 40, 50, 60]"]
  by (auto simp: nth_Cons')

text \<open>
  Claim C6 speaks of all buffers. The source checks the length first, so a buffer of one
  byte is rejected and there is no output whose length could be compared.
\<close>

theorem invert_rejects_one_byte: "apply_invert_rgb_simd [7] = Inl InvalidArgument"
  by (simp add: apply_invert_rgb_simd_def)

text \<open>
  Claim C6, amended to the buffers the transform accepts. For every buffer whose length is
  a multiple of 3 the invert transform returns a buffer of the same length, every output
  sample is 255 minus the input sample, and inverting the output gives the input back.
\<close>

theorem invert_involution:
  assumes "length B mod 3 = 0"
  shows "\<exists>out. apply_invert_rgb_simd B = Inr out \<and> length out = length B \<and>
           (\<forall>i<length B. uint (out ! i) = 255 - uint (B ! i)) \<and>
           apply_invert_rgb_simd out = Inr B"
proof -
  have "map invert_byte (map invert_byte B) = B"
    by (simp add: invert_byte_invert_byte comp_def)
  with assms show ?thesis
    by (simp add: apply_invert_rgb_simd_map uint_invert_byte)
qed

text \<open>The theorem of claim C6 at the one-pixel buffer \<open>[255, 0, 0]\<close>.\<close>

theorem invert_involution_witness:
  "length [255, 0, 0 :: byte] mod 3 = 0 \<and>
   (\<exists>out. apply_invert_rgb_simd [255, 0, 0] = Inr out \<and> length out = 3 \<and>
      apply_invert_rgb_simd out = Inr [255, 0, 0])"
  using invert_involution [of "[255, 0, 0]"] by auto

text \<open>
  Claim C7 expects the sample 76 for the red pixel. The sum \<open>77 * 255 + 128\<close> is
  19763, and 19763 shifted right by 8 is 77.
\<close>

theorem red_pixel_greyscale_not_76: "apply_greyscale_rgb_simd [255, 0, 0] \<noteq> Inr [76]"
  by (simp add: apply_greyscale_rgb_simd_map grey_at_def luminance_def)

text \<open>
  Claim C7, amended. For the one-pixel buffer \<open>[255, 0, 0]\<close> the greyscale transform
  yields \<open>[77]\<close> and the invert transform yields \<open>[0, 255, 255]\<close>.
\<close>

theorem red_pixel_scenario:
  "apply_greyscale_rgb_simd [255, 0, 0] = Inr [77] \<and>
   apply_invert_rgb_simd [255, 0, 0] = Inr [0, 255, 255]"
  by (simp add: apply_greyscale_rgb_simd_map apply_invert_rgb_simd_map grey_at_def luminance_def
      invert_byte_def)

lemma sub_epi8_all_ones:
  "mm_sub_epi8 (mm_set1_epi8 255) (mm_loadu_si128 src i) = map invert_byte (mm_loadu_si128 src i)"
  by (intro nth_equalityI)
     (simp_all add: mm_sub_epi8_def mm_set1_epi8_def mm_loadu_si128_def invert_byte_eq)

text \<open>
  Claim C10. The grouped path and the one-at-a-time path give the same bytes: each
  transform equals its scalar reference on every buffer. The grouped loops do run, over
  the first \<open>8 * (pixels div 8)\<close> pixels and the first \<open>16 * (length div 16)\<close>
  samples, and the lane-wise subtraction from the all-ones register is the scalar
  \<open>255 - src[i]\<close> on each lane.
\<close>

theorem grouped_paths_equal_scalar:
  "apply_greyscale_rgb_simd B = greyscale_scalar B \<and>
   apply_invert_rgb_simd B = invert_scalar B \<and>
   fst (grey_group_loop B (length B div 3) 0 (replicate (length B div 3) 0))
     = 8 * (length B div 3 div 8) \<and>
   fst (invert_group_loop B (length B) (mm_set1_epi8 255) 0 (replicate (length B) 0))
     = 16 * (length B div 16) \<and>
   mm_sub_epi8 (mm_set1_epi8 255) (mm_loadu_si128 B i) = map invert_byte (mm_loadu_si128 B i)"
proof (intro conjI)
  show "apply_greyscale_rgb_simd B = greyscale_scalar B"
  proof (cases "length B mod 3 = 0")
    case True
    then show ?thesis
      by (simp add: apply_greyscale_rgb_simd_map greyscale_scalar_def grey_tail_loop_inv)
  next
    case False
    then show ?thesis by (simp add: apply_greyscale_rgb_simd_def greyscale_scalar_def)
  qed
  show "apply_invert_rgb_simd B = invert_scalar B"
  proof (cases "length B mod 3 = 0")
    case True
    have "map (\<lambda>k. invert_byte (B ! k)) [0..<length B] = map invert_byte B"
      by (intro nth_equalityI) simp_all
    with True show ?thesis
      by (simp add: apply_invert_rgb_simd_map invert_scalar_def invert_tail_loop_inv)
  next
    case False
    then show ?thesis by (simp add: apply_invert_rgb_simd_def invert_scalar_def)
  qed
  show "fst (grey_group_loop B (length B div 3) 0 (replicate (length B div 3) 0))
     = 8 * (length B div 3 div 8)"
    using grey_group_loop_inv[of "replicate (length B div 3) 0" "length B div 3" 0 B]
    by (cases "grey_group_loop B (length B div 3) 0 (replicate (length B div 3) 0)") simp
  show "fst (invert_group_loop B (length B) (mm_set1_epi8 255) 0 (replicate (length B) 0))
     = 16 * (length B div 16)"
    using invert_group_loop_inv[of "replicate (length B) 0" "length B" B 0]
    by (cases "invert_group_loop B (length B) (mm_set1_epi8 255) 0 (replicate (length B) 0)") simp
  show "mm_sub_epi8 (mm_set1_epi8 255) (mm_loadu_si128 B i) = map invert_byte (mm_loadu_si128 B i)"
    by (rule sub_epi8_all_ones)
qed

section \<open>Loops, checked accesses and filled buffers\<close>

lemma bnd_Inr [simp]: "bnd (Inr v) f = f v"
  by (simp add: bnd_def)

lemma bnd_Inl [simp]: "bnd (Inl e) f = Inl e"
  by (simp add: bnd_def)

lemma rd_in_range: "0 \<le> i \<Longrightarrow> i < int (length xs) \<Longrightarrow> rd xs i = Inr (xs ! nat i)"
  by (simp add: rd_def)

lemma wr_in_range: "0 \<le> i \<Longrightarrow> i < int (length xs) \<Longrightarrow> wr xs i v = Inr (xs[nat i := v])"
  by (simp add: wr_def)

lemma for_range_done: "n \<le> i \<Longrightarrow> for_range i n body s = Inr s"
  by (subst for_range.simps) simp

lemma for_range_step_Inr:
  "i < n \<Longrightarrow> body i s = Inr s' \<Longrightarrow> for_range i n body s = for_range (i + 1) n body s'"
  by (subst for_range.simps) simp

lemma for_range_step_Inl:
  "i < n \<Longrightarrow> body i s = Inl e \<Longrightarrow> for_range i n body s = Inl e"
  by (subst for_range.simps) simp

lemma for_range_inv_err:
  assumes "I i s" "i \<le> n"
    and step: "\<And>j t. i \<le> j \<Longrightarrow> j < n \<Longrightarrow> I j t \<Longrightarrow>
                 (\<exists>t'. body j t = Inr t' \<and> I (j + 1) t') \<or> (\<exists>e. body j t = Inl e \<and> E e)"
  shows "(\<exists>s'. for_range i n body s = Inr s' \<and> I n s') \<or>
         (\<exists>e. for_range i n body s = Inl e \<and> E e)"
  using assms
proof (induction i n body s rule: for_range.induct)
  case (1 i n body s)
  show ?case
  proof (cases "i < n")
    case False
    with 1(2,3) have "i = n" by simp
    with 1(2) show ?thesis by (simp add: for_range_done)
  next
    case True
    from 1(4)[OF order_refl True 1(2)]
    show ?thesis
    proof (elim disjE exE conjE)
      fix t' assume b: "body i s = Inr t'" and inv: "I (i + 1) t'"
      have st: "\<And>j t. i + 1 \<le> j \<Longrightarrow> j < n \<Longrightarrow> I j t \<Longrightarrow>
                 (\<exists>t'. body j t = Inr t' \<and> I (j + 1) t') \<or> (\<exists>e. body j t = Inl e \<and> E e)"
        using 1(4) by simp
      from True have le: "i + 1 \<le> n" by simp
      from 1(1)[OF True b inv le st] show ?thesis
        by (simp add: for_range_step_Inr[of i n body s t', OF True b])
    next
      fix e assume "body i s = Inl e" "E e"
      then show ?thesis by (simp add: for_range_step_Inl[of i n body s e, OF True])
    qed
  qed
qed

lemma for_range_inv:
  assumes "I i s" "i \<le> n"
    and step: "\<And>j t. i \<le> j \<Longrightarrow> j < n \<Longrightarrow> I j t \<Longrightarrow> \<exists>t'. body j t = Inr t' \<and> I (j + 1) t'"
  shows "\<exists>s'. for_range i n body s = Inr s' \<and> I n s'"
proof -
  have "(\<exists>s'. for_range i n body s = Inr s' \<and> I n s') \<or>
        (\<exists>e. for_range i n body s = Inl e \<and> False)"
    by (rule for_range_inv_err[where I = I and E = "\<lambda>_. False", OF assms(1,2)])
       (use step in blast)
  then show ?thesis by simp
qed

text \<open>
  A loop whose bodies succeed up to the counter value \<open>m\<close> and whose body fails there
  ends in that error.
\<close>

lemma for_range_first_error:
  assumes "I i s" "i \<le> m" "m < n"
    and "\<And>j t. i \<le> j \<Longrightarrow> j < m \<Longrightarrow> I j t \<Longrightarrow> \<exists>t'. body j t = Inr t' \<and> I (j + 1) t'"
    and "\<And>t. I m t \<Longrightarrow> body m t = Inl e"
  shows "for_range i n body s = Inl e"
  using assms
proof (induction i n body s rule: for_range.induct)
  case (1 i n body s)
  from 1(3,4) have lt: "i < n" by simp
  show ?case
  proof (cases "i = m")
    case True
    with 1(2,6) have "body i s = Inl e" by simp
    then show ?thesis by (rule for_range_step_Inl[OF lt])
  next
    case False
    with 1(3) have im: "i < m" by simp
    from 1(5)[OF order_refl im 1(2)] obtain t' where
      b: "body i s = Inr t'" and inv: "I (i + 1) t'" by blast
    have st: "\<And>j t. i + 1 \<le> j \<Longrightarrow> j < m \<Longrightarrow> I j t \<Longrightarrow> \<exists>t'. body j t = Inr t' \<and> I (j + 1) t'"
      using 1(5) by simp
    from im have le: "i + 1 \<le> m" by simp
    have "for_range (i + 1) n body t' = Inl e"
      by (rule 1(1)[OF lt b inv le 1(4) st 1(6)])
    then show ?thesis
      by (simp add: for_range_step_Inr[of i n body s t', OF lt b])
  qed
qed

lemma for_range_foldl:
  assumes "\<And>j t. i \<le> j \<Longrightarrow> j < n \<Longrightarrow> body j t = Inr (g t j)"
  shows "for_range i n body s = Inr (foldl g s [i..n - 1])"
  using assms
proof (induction i n body s rule: for_range.induct)
  case (1 i n body s)
  show ?case
  proof (cases "i < n")
    case False
    then show ?thesis by (simp add: for_range_done)
  next
    case True
    have b: "body i s = Inr (g s i)" using 1(2) True by simp
    have up: "[i..n - 1] = i # [i + 1..n - 1]"
      using True by (simp add: upto_rec1)
    have "for_range (i + 1) n body (g s i) = Inr (foldl g (g s i) [i + 1..n - 1])"
      by (rule 1(1)[OF True b]) (use 1(2) in simp)
    then show ?thesis
      by (simp add: for_range_step_Inr[of i n body s "g s i", OF True b] up)
  qed
qed

lemma for_range_fill:
  fixes G :: "nat \<Rightarrow> 'a"
  assumes body: "\<And>j t. 0 \<le> j \<Longrightarrow> j < n \<Longrightarrow> length t = N \<Longrightarrow>
                   body j t = Inr (t[nat (base + j) := G (nat (base + j))])"
    and base: "0 \<le> base" and n: "0 \<le> n" and fit: "nat (base + n) \<le> N"
    and t0: "length t0 = N" "\<forall>k<nat base. t0 ! k = G k"
  shows "\<exists>t'. for_range 0 n body t0 = Inr t' \<and> length t' = N \<and>
           (\<forall>k<nat (base + n). t' ! k = G k)"
proof -
  let ?I = "\<lambda>j t. length t = N \<and> (\<forall>k<nat (base + j). t ! k = G k)"
  have "\<exists>t'. for_range 0 n body t0 = Inr t' \<and> ?I n t'"
  proof (rule for_range_inv[where I = ?I])
    show "?I 0 t0" using t0 by simp
    show "0 \<le> n" by (rule n)
  next
    fix j t assume j: "0 \<le> j" "j < n" and inv: "?I j t"
    from j base fit inv have lt: "nat (base + j) < length t" by simp
    have nxt: "nat (base + (j + 1)) = Suc (nat (base + j))"
      using j base by simp
    have "\<forall>k<nat (base + (j + 1)). t[nat (base + j) := G (nat (base + j))] ! k = G k"
      using inv lt by (auto simp: nxt nth_list_update less_Suc_eq)
    with inv show "\<exists>t'. body j t = Inr t' \<and> ?I (j + 1) t'"
      by (simp add: body[OF j])
  qed
  then show ?thesis by simp
qed

lemma for_range_blocks:
  fixes G :: "nat \<Rightarrow> 'a"
  assumes body: "\<And>j t. 0 \<le> j \<Longrightarrow> j < n \<Longrightarrow> length t = N \<Longrightarrow>
                   \<forall>k<nat (base + j * m). t ! k = G k \<Longrightarrow>
                   \<exists>t'. body j t = Inr t' \<and> length t' = N \<and>
                     (\<forall>k<nat (base + (j + 1) * m). t' ! k = G k)"
    and n: "0 \<le> n"
    and t0: "length t0 = N" "\<forall>k<nat base. t0 ! k = G k"
  shows "\<exists>t'. for_range 0 n body t0 = Inr t' \<and> length t' = N \<and>
           (\<forall>k<nat (base + n * m). t' ! k = G k)"
proof -
  let ?I = "\<lambda>j t. length t = N \<and> (\<forall>k<nat (base + j * m). t ! k = G k)"
  have "\<exists>t'. for_range 0 n body t0 = Inr t' \<and> ?I n t'"
  proof (rule for_range_inv[where I = ?I])
    show "?I 0 t0" using t0 by simp
    show "0 \<le> n" by (rule n)
  next
    fix j t assume j: "0 \<le> j" "j < n" and inv: "?I j t"
    from body[OF j] inv show "\<exists>t'. body j t = Inr t' \<and> ?I (j + 1) t'"
      by blast
  qed
  then show ?thesis by simp
qed

lemma filled_eq_map:
  "length t = N \<Longrightarrow> \<forall>k<N. t ! k = G k \<Longrightarrow> t = map G [0..<N]"
  by (intro nth_equalityI) simp_all

section \<open>Edge clamping and cell indices\<close>

lemma clamp_int_edge: "1 \<le> n \<Longrightarrow> clamp_int v 0 (n - 1) = edge_clamp v n"
  by (simp add: clamp_int_def edge_clamp_def)

lemma edge_clamp_range: "1 \<le> n \<Longrightarrow> 0 \<le> edge_clamp v n \<and> edge_clamp v n \<le> n - 1"
  by (simp add: edge_clamp_def)

lemma edge_clamp_id: "0 \<le> v \<Longrightarrow> v < n \<Longrightarrow> edge_clamp v n = v"
  by (simp add: edge_clamp_def)

lemma cell_index_range:
  fixes x y w h :: int
  assumes "0 \<le> x" "x < w" "0 \<le> y" "y < h"
  shows "0 \<le> y * w + x" "y * w + x < w * h"
proof -
  from assms show "0 \<le> y * w + x" by simp
  from assms have "(y + 1) * w \<le> h * w"
    by (intro mult_right_mono) simp_all
  with assms show "y * w + x < w * h"
    by (simp add: algebra_simps)
qed

lemma cell_index_div_mod:
  fixes x y w :: int
  assumes "0 \<le> x" "x < w"
  shows "(y * w + x) div w = y" "(y * w + x) mod w = x"
  using assms by (simp_all add: div_pos_pos_trivial mod_pos_pos_trivial)

lemma clamped_cell_range:
  assumes "1 \<le> w" "1 \<le> h"
  shows "0 \<le> edge_clamp py h * w + edge_clamp px w"
    "edge_clamp py h * w + edge_clamp px w < w * h"
proof -
  have x: "0 \<le> edge_clamp px w" "edge_clamp px w < w"
    using edge_clamp_range[OF assms(1), of px] by simp_all
  have y: "0 \<le> edge_clamp py h" "edge_clamp py h < h"
    using edge_clamp_range[OF assms(2), of py] by simp_all
  show "0 \<le> edge_clamp py h * w + edge_clamp px w"
    "edge_clamp py h * w + edge_clamp px w < w * h"
    using cell_index_range[OF x y] by simp_all
qed

lemma sample_index_range:
  fixes x y c w h :: int
  assumes "0 \<le> x" "x < w" "0 \<le> y" "y < h" "0 \<le> c" "c < 3"
  shows "0 \<le> (y * w + x) * 3 + c" "(y * w + x) * 3 + c < w * h * 3"
  using cell_index_range[OF assms(1-4)] assms(5,6) by simp_all

lemma sample_index_div_mod:
  fixes x y c w :: int
  assumes "0 \<le> x" "x < w" "0 \<le> c" "c < 3"
  shows "((y * w + x) * 3 + c) mod 3 = c"
    "(((y * w + x) * 3 + c) div 3) mod w = x"
    "(((y * w + x) * 3 + c) div 3) div w = y"
proof -
  have c0: "c div 3 = 0" "c mod 3 = c"
    using assms(3,4) by (simp_all add: div_pos_pos_trivial mod_pos_pos_trivial)
  have "((y * w + x) * 3 + c) div 3 = y * w + x + c div 3"
    by (rule div_mult_self3) simp
  then have d: "((y * w + x) * 3 + c) div 3 = y * w + x"
    by (simp only: c0 add_0_right)
  have "((y * w + x) * 3 + c) mod 3 = c mod 3"
    by (rule mod_mult_self3)
  then show "((y * w + x) * 3 + c) mod 3 = c"
    by (simp only: c0)
  show "(((y * w + x) * 3 + c) div 3) mod w = x"
    "(((y * w + x) * 3 + c) div 3) div w = y"
    unfolding d using cell_index_div_mod[OF assms(1,2)] by simp_all
qed

section \<open>Loops that do nothing, and what a finished loop preserves\<close>

lemma for_range_skip:
  assumes "\<And>j t. i \<le> j \<Longrightarrow> j < n \<Longrightarrow> body j t = Inr t"
  shows "for_range i n body s = Inr s"
  using assms
proof (induction i n body s rule: for_range.induct)
  case (1 i n body s)
  show ?case
  proof (cases "i < n")
    case False
    then show ?thesis by (simp add: for_range_done)
  next
    case True
    have b: "body i s = Inr s" using 1(2) True by simp
    have "for_range (i + 1) n body s = Inr s"
      by (rule 1(1)[OF True b]) (use 1(2) in simp)
    then show ?thesis
      by (simp add: for_range_step_Inr[of i n body s s, OF True b])
  qed
qed

lemma for_range_preserves:
  assumes "P s"
    and "for_range i n body s = Inr s'"
    and "\<And>j t t'. P t \<Longrightarrow> body j t = Inr t' \<Longrightarrow> P t'"
  shows "P s'"
  using assms
proof (induction i n body s rule: for_range.induct)
  case (1 i n body s)
  show ?case
  proof (cases "i < n")
    case False
    with 1(2,3) show ?thesis by (simp add: for_range_done)
  next
    case True
    show ?thesis
    proof (cases "body i s")
      case (Inl e)
      with True 1(3) show ?thesis
        by (simp add: for_range_step_Inl[of i n body s e])
    next
      case (Inr t)
      with True 1(3) have r: "for_range (i + 1) n body t = Inr s'"
        by (simp add: for_range_step_Inr[of i n body s t])
      have "P t" by (rule 1(4)[OF 1(2) Inr])
      then show ?thesis
        by (rule 1(1)[OF True Inr _ r]) (rule 1(4))
    qed
  qed
qed

lemma bnd_success: "bnd m f = Inr r \<Longrightarrow> \<exists>v. m = Inr v \<and> f v = Inr r"
  by (cases m) simp_all

lemma wr_length: "wr xs i v = Inr t \<Longrightarrow> length t = length xs"
  by (auto simp: wr_def split: if_splits)

section \<open>Conversions and \<open>int\<close> operations within range\<close>

lemma sint_as_uint:
  fixes a :: uint32
  shows "sint a = (uint a + 2147483648) mod 4294967296 - 2147483648"
proof -
  have "sint (word_of_int (uint a) :: uint32) =
      (uint a + 2 ^ (LENGTH(32) - 1)) mod 2 ^ LENGTH(32) - 2 ^ (LENGTH(32) - 1)"
    by (rule int_word_sint)
  then show ?thesis by simp
qed

lemma uint_below: "uint (a :: uint32) < 4294967296"
  using uint_lt2p[of a] by simp

lemma sint_small:
  fixes a :: uint32
  assumes "uint a \<le> INT_MAX"
  shows "sint a = uint a"
proof -
  have "(uint a + 2147483648) mod 4294967296 = uint a + 2147483648"
    using assms by (intro mod_pos_pos_trivial) (simp_all add: INT_MAX_def)
  then show ?thesis by (simp add: sint_as_uint)
qed

lemma sint_large:
  fixes a :: uint32
  assumes "INT_MAX < uint a"
  shows "sint a = uint a - 4294967296"
proof -
  have "uint a + 2147483648 = (uint a - 2147483648) + 4294967296" by simp
  then have "(uint a + 2147483648) mod 4294967296 = (uint a - 2147483648) mod 4294967296"
    by (simp only: mod_add_self2)
  also have "\<dots> = uint a - 2147483648"
    using assms uint_below[of a] by (intro mod_pos_pos_trivial) (simp_all add: INT_MAX_def)
  finally show ?thesis by (simp add: sint_as_uint)
qed

lemma sint_large_negative:
  fixes a :: uint32
  assumes "INT_MAX < uint a"
  shows "sint a < 0"
  using sint_large[OF assms] uint_below[of a] by simp

lemma add_int_ok: "INT_MIN \<le> a + b \<Longrightarrow> a + b \<le> INT_MAX \<Longrightarrow> add_int a b = Inr (a + b)"
  by (simp add: add_int_def int_result_def)

lemma sub_int_ok: "INT_MIN \<le> a - b \<Longrightarrow> a - b \<le> INT_MAX \<Longrightarrow> sub_int a b = Inr (a - b)"
  by (simp add: sub_int_def int_result_def)

lemma mul_int_ok: "INT_MIN \<le> a * b \<Longrightarrow> a * b \<le> INT_MAX \<Longrightarrow> mul_int a b = Inr (a * b)"
  by (simp add: mul_int_def int_result_def)

lemma mul_int_success:
  "mul_int a b = Inr v \<Longrightarrow> v = a * b \<and> INT_MIN \<le> a * b \<and> a * b \<le> INT_MAX"
  by (auto simp: mul_int_def int_result_def split: if_splits)

lemma dimension_bounds:
  fixes w h :: int
  assumes "1 \<le> w" "1 \<le> h"
  shows "w \<le> w * h" "h \<le> w * h"
proof -
  have "w * 1 \<le> w * h" using assms by (intro mult_left_mono) simp_all
  then show "w \<le> w * h" by simp
  have "1 * h \<le> w * h" using assms by (intro mult_right_mono) simp_all
  then show "h \<le> w * h" by simp
qed

lemma cell_index_ok:
  fixes x y w h :: int
  assumes x: "0 \<le> x" "x < w" and y: "0 \<le> y" "y < h" and fit: "w * h \<le> INT_MAX"
  shows "mul_int y w = Inr (y * w)" "add_int (y * w) x = Inr (y * w + x)"
proof -
  have c: "0 \<le> y * w + x" "y * w + x < w * h" by (rule cell_index_range[OF x y])+
  have yw: "0 \<le> y * w" using x y by simp
  from yw c x fit show "mul_int y w = Inr (y * w)"
    by (intro mul_int_ok) (simp_all add: INT_MIN_def)
  from c fit show "add_int (y * w) x = Inr (y * w + x)"
    by (intro add_int_ok) (simp_all add: INT_MIN_def)
qed

lemma sample_index_ok:
  fixes x y c w h :: int
  assumes x: "0 \<le> x" "x < w" and y: "0 \<le> y" "y < h" and c: "0 \<le> c" "c < 3"
    and fit: "w * h * 3 \<le> INT_MAX"
  shows "sample_index y w x 3 c = Inr ((y * w + x) * 3 + c)"
proof -
  have cell: "0 \<le> y * w + x" "y * w + x < w * h" by (rule cell_index_range[OF x y])+
  have wh: "w * h \<le> INT_MAX" using cell fit by simp
  have s: "0 \<le> (y * w + x) * 3 + c" "(y * w + x) * 3 + c < w * h * 3"
    by (rule sample_index_range[OF x y c])+
  have m: "mul_int (y * w + x) 3 = Inr ((y * w + x) * 3)"
    using cell fit by (intro mul_int_ok) (simp_all add: INT_MIN_def)
  have a: "add_int ((y * w + x) * 3) c = Inr ((y * w + x) * 3 + c)"
    using s fit by (intro add_int_ok) (simp_all add: INT_MIN_def)
  show ?thesis
    by (simp only: sample_index_def cell_index_ok[OF x y wh] m a bnd_Inr)
qed

section \<open>The Laplacian computes the stencil over the greyscale buffer\<close>

lemma get_grey_neighbour:
  assumes w: "1 \<le> w" and h: "1 \<le> h" and fit: "w * h \<le> INT_MAX"
    and len: "length grey = nat (w * h)"
  shows "get_grey grey w h px py = Inr (neighbour grey w h px py)"
proof -
  have le: "w \<le> INT_MAX" "h \<le> INT_MAX"
    using dimension_bounds[OF w h] fit by simp_all
  have s1: "sub_int w 1 = Inr (w - 1)"
    using w le by (intro sub_int_ok) (simp_all add: INT_MIN_def)
  have s2: "sub_int h 1 = Inr (h - 1)"
    using h le by (intro sub_int_ok) (simp_all add: INT_MIN_def)
  have ex: "0 \<le> edge_clamp px w" "edge_clamp px w < w"
    using edge_clamp_range[OF w, of px] by simp_all
  have ey: "0 \<le> edge_clamp py h" "edge_clamp py h < h"
    using edge_clamp_range[OF h, of py] by simp_all
  have r: "0 \<le> edge_clamp py h * w + edge_clamp px w"
    "edge_clamp py h * w + edge_clamp px w < int (length grey)"
    using clamped_cell_range[OF w h, of py px] len by simp_all
  show ?thesis
    by (simp only: get_grey_def s1 s2 bnd_Inr Let_def clamp_int_edge[OF w] clamp_int_edge[OF h]
        cell_index_ok[OF ex ey fit] rd_in_range[OF r] neighbour_def)
qed

lemma laplacian_body_stores:
  assumes x: "0 \<le> x" "x < w" and y: "0 \<le> y" "y < h" and fit: "w * h \<le> INT_MAX"
    and lg: "length grey = nat (w * h)" and lo: "length output = nat (w * h)"
  shows "laplacian_body grey w h y x output =
           Inr (output[nat (y * w + x) := word_of_int (laplacian_sample grey w h x y)])"
proof -
  from x y have wh: "1 \<le> w" "1 \<le> h" by simp_all
  have le: "w \<le> INT_MAX" "h \<le> INT_MAX"
    using dimension_bounds[OF wh] fit by simp_all
  have c: "sub_int y 1 = Inr (y - 1)" "sub_int x 1 = Inr (x - 1)"
    "add_int x 1 = Inr (x + 1)" "add_int y 1 = Inr (y + 1)"
    using x y le by (simp_all add: sub_int_ok add_int_ok INT_MIN_def)
  have idx: "0 \<le> y * w + x" "y * w + x < int (length output)"
    using cell_index_range[OF x y] lo by simp_all
  have "clamp_int \<bar>v\<bar> 0 255 = min 255 (max 0 \<bar>v\<bar>)" for v :: int
    by (simp add: clamp_int_def)
  then have "laplacian_body grey w h y x output =
      Inr (output[nat (y * w + x) := word_of_int (min 255 (max 0
        \<bar>0 + - 1 * neighbour grey w h x (y - 1) + - 1 * neighbour grey w h (x - 1) y
          + 4 * neighbour grey w h x y + - 1 * neighbour grey w h (x + 1) y
          + - 1 * neighbour grey w h x (y + 1)\<bar>))])"
    by (simp add: laplacian_body_def c get_grey_neighbour[OF wh fit lg]
        cell_index_ok[OF x y fit] wr_in_range[OF idx] Let_def)
  also have "0 + - 1 * neighbour grey w h x (y - 1) + - 1 * neighbour grey w h (x - 1) y
          + 4 * neighbour grey w h x y + - 1 * neighbour grey w h (x + 1) y
          + - 1 * neighbour grey w h x (y + 1) =
        4 * neighbour grey w h x y - neighbour grey w h x (y - 1)
       - neighbour grey w h x (y + 1) - neighbour grey w h (x - 1) y
       - neighbour grey w h (x + 1) y"
    by simp
  finally show ?thesis
    by (simp only: laplacian_sample_def)
qed

lemma laplacian_grey_body_stores:
  assumes "0 \<le> i" "i < n" "length src = nat (n * 3)" "length grey = nat n"
  shows "laplacian_grey_body src i grey = Inr (grey[nat i := grey_at src (nat i * 3)])"
proof -
  from assms have r: "i * 3 + 2 < int (length src)" by simp
  have n0: "nat (i * 3) = nat i * 3" using assms(1) by (simp add: nat_mult_distrib)
  have n1: "nat (i * 3 + 1) = nat i * 3 + 1"
    using assms(1) by (simp add: nat_add_distrib nat_mult_distrib)
  have n2: "nat (i * 3 + 2) = nat i * 3 + 2"
    using assms(1) by (simp add: nat_add_distrib nat_mult_distrib)
  from assms r show ?thesis
    by (simp add: laplacian_grey_body_def rd_in_range wr_in_range grey_at_def n0 n1 n2)
qed

lemma laplacian_grey_loop:
  assumes "length src = nat (n * 3)" "0 \<le> n"
  shows "for_range 0 n (laplacian_grey_body src) (replicate (nat n) 0) =
           Inr (map (\<lambda>k. grey_at src (k * 3)) [0..<nat n])"
proof -
  have "\<exists>t'. for_range 0 n (laplacian_grey_body src) (replicate (nat n) 0) = Inr t' \<and>
          length t' = nat n \<and> (\<forall>k<nat (0 + n). t' ! k = grey_at src (k * 3))"
    by (rule for_range_fill)
       (simp_all add: laplacian_grey_body_stores[OF _ _ assms(1)] assms(2))
  then show ?thesis
    by (auto simp: filled_eq_map)
qed

lemma laplacian_row_loop:
  assumes y: "0 \<le> y" "y < h" and w: "0 \<le> w" and fit: "w * h \<le> INT_MAX"
    and len: "length grey = nat (w * h)" "length t0 = nat (w * h)"
    and pre: "\<forall>k<nat (y * w). t0 ! k =
                word_of_int (laplacian_sample grey w h (int k mod w) (int k div w))"
  shows "\<exists>t'. for_range 0 w (\<lambda>x. laplacian_body grey w h y x) t0 = Inr t' \<and>
           length t' = nat (w * h) \<and>
           (\<forall>k<nat ((y + 1) * w). t' ! k =
              word_of_int (laplacian_sample grey w h (int k mod w) (int k div w)))"
proof -
  let ?G = "\<lambda>k. word_of_int (laplacian_sample grey w h (int k mod w) (int k div w)) :: byte"
  have yw: "0 \<le> y * w" using y w by simp
  have "(y + 1) * w \<le> h * w" using y w by (intro mult_right_mono) simp_all
  then have fill: "nat (y * w + w) \<le> nat (w * h)" by (simp add: algebra_simps)
  have "\<exists>t'. for_range 0 w (\<lambda>x. laplacian_body grey w h y x) t0 = Inr t' \<and>
          length t' = nat (w * h) \<and> (\<forall>k<nat (y * w + w). t' ! k = ?G k)"
  proof (rule for_range_fill[where G = ?G, OF _ yw w fill len(2)])
    fix x and t :: "byte list"
    assume x: "0 \<le> x" "x < w" and t: "length t = nat (w * h)"
    have i: "int (nat (y * w + x)) = y * w + x" using yw x by simp
    show "laplacian_body grey w h y x t = Inr (t[nat (y * w + x) := ?G (nat (y * w + x))])"
      by (simp only: laplacian_body_stores[OF x y fit len(1) t] i cell_index_div_mod[OF x])
  next
    show "\<forall>k<nat (y * w). t0 ! k = ?G k" using pre by simp
  qed
  then show ?thesis by (simp add: algebra_simps)
qed

lemma laplacian_stencil_loops:
  assumes w: "0 \<le> w" and h: "0 \<le> h" and fit: "w * h \<le> INT_MAX"
    and len: "length grey = nat (w * h)"
  shows "for_range 0 h (\<lambda>y. for_range 0 w (\<lambda>x. laplacian_body grey w h y x))
           (replicate (nat (w * h)) 0) =
         Inr (map (\<lambda>k. word_of_int (laplacian_sample grey w h (int k mod w) (int k div w)))
                [0..<nat (w * h)])"
proof -
  let ?G = "\<lambda>k. word_of_int (laplacian_sample grey w h (int k mod w) (int k div w)) :: byte"
  have "\<exists>t'. for_range 0 h (\<lambda>y. for_range 0 w (\<lambda>x. laplacian_body grey w h y x))
           (replicate (nat (w * h)) 0) = Inr t' \<and> length t' = nat (w * h) \<and>
           (\<forall>k<nat (0 + h * w). t' ! k = ?G k)"
  proof (rule for_range_blocks[where G = ?G])
    fix y and t :: "byte list"
    assume "0 \<le> y" "y < h" "length t = nat (w * h)" "\<forall>k<nat (0 + y * w). t ! k = ?G k"
    then show "\<exists>t'. for_range 0 w (\<lambda>x. laplacian_body grey w h y x) t = Inr t' \<and>
        length t' = nat (w * h) \<and> (\<forall>k<nat (0 + (y + 1) * w). t' ! k = ?G k)"
      using laplacian_row_loop[OF _ _ w fit len, of y t] by simp
  qed (simp_all add: h)
  then show ?thesis
    by (auto simp: filled_eq_map mult.commute)
qed

text \<open>
  An image without pixels: one of the two words is 0. The stencil loops then do not
  run a single body, whatever the other word is.
\<close>

lemma empty_image_loops:
  fixes width height :: uint32
  assumes "unat width * unat height = 0"
  shows "for_range 0 (sint height) (\<lambda>y. for_range 0 (sint width) (body y)) s = Inr s"
proof (cases "height = 0")
  case True
  then show ?thesis by (simp add: for_range_done)
next
  case False
  with assms have "width = 0" by (simp add: unat_eq_0)
  then have "for_range 0 (sint width) (body y) t = Inr t" for y t
    by (simp add: for_range_done)
  then show ?thesis by (rule for_range_skip)
qed

lemma nonempty_image_dimensions:
  fixes width height :: uint32
  assumes "unat width * unat height \<noteq> 0" "uint width * uint height \<le> INT_MAX"
  shows "1 \<le> uint width" "1 \<le> uint height" "sint width = uint width" "sint height = uint height"
proof -
  from assms(1) have "unat width \<noteq> 0" "unat height \<noteq> 0" by simp_all
  then have "uint width \<noteq> 0" "uint height \<noteq> 0"
    by (simp_all add: unat_eq_0 uint_0_iff)
  then show p: "1 \<le> uint width" "1 \<le> uint height"
    using uint_ge_0[of width] uint_ge_0[of height] by linarith+
  from dimension_bounds[OF p] assms(2)
  have "uint width \<le> INT_MAX" "uint height \<le> INT_MAX" by simp_all
  then show "sint width = uint width" "sint height = uint height"
    by (simp_all add: sint_small)
qed

lemma pixel_count_nat:
  "nat (uint (width :: uint32) * uint (height :: uint32)) = unat width * unat height"
  by (simp add: nat_mult_distrib)

lemma apply_laplacian_rgb_eq:
  assumes dims: "unat width * unat height * 3 = length B"
    and fit: "uint width * uint height \<le> INT_MAX"
  shows "apply_laplacian_rgb B width height =
     Inr (map (\<lambda>k. word_of_int (laplacian_sample
                 (map (\<lambda>k. grey_at B (k * 3)) [0..<unat width * unat height])
                 (uint width) (uint height) (int k mod uint width) (int k div uint width)))
           [0..<unat width * unat height])"
proof (cases "unat width * unat height = 0")
  case True
  then have m: "length B mod 3 = 0" using dims[symmetric] by simp
  from True have "uint width = 0 \<or> uint height = 0"
    by (auto simp: unat_eq_0 uint_0_iff)
  then have z: "sint width * sint height = 0"
    by (auto simp: uint_0_iff)
  have p: "mul_int (sint width) (sint height) = Inr 0"
    unfolding mul_int_def int_result_def z by (simp add: INT_MIN_def INT_MAX_def)
  have l: "for_range 0 (sint height)
      (\<lambda>y. for_range 0 (sint width) (\<lambda>x. laplacian_body [] (sint width) (sint height) y x)) [] =
      Inr []"
    by (rule empty_image_loops[OF True])
  show ?thesis
    unfolding apply_laplacian_rgb_def Let_def using m True
    by (simp add: p for_range_done l)
next
  case False
  let ?w = "uint width" and ?h = "uint height"
  note d = nonempty_image_dimensions[OF False fit]
  have m: "length B mod 3 = 0" using dims[symmetric] by simp
  have n: "nat (?w * ?h) = unat width * unat height" by (rule pixel_count_nat)
  have nn: "0 \<le> ?w * ?h" by simp
  have lo: "INT_MIN \<le> ?w * ?h"
    unfolding INT_MIN_def using nn by linarith
  have p: "mul_int ?w ?h = Inr (?w * ?h)"
    by (rule mul_int_ok[OF lo fit])
  have l: "length B = nat (?w * ?h * 3)"
    using dims[symmetric] n nn by (simp add: nat_mult_distrib)
  have g: "for_range 0 (?w * ?h) (laplacian_grey_body B) (replicate (nat (?w * ?h)) 0) =
      Inr (map (\<lambda>k. grey_at B (k * 3)) [0..<unat width * unat height])"
    using laplacian_grey_loop[OF l nn] by (simp only: n)
  have s: "for_range 0 ?h (\<lambda>y. for_range 0 ?w
        (\<lambda>x. laplacian_body (map (\<lambda>k. grey_at B (k * 3)) [0..<unat width * unat height])
           ?w ?h y x))
      (replicate (nat (?w * ?h)) 0) =
     Inr (map (\<lambda>k. word_of_int (laplacian_sample
                 (map (\<lambda>k. grey_at B (k * 3)) [0..<unat width * unat height])
                 ?w ?h (int k mod ?w) (int k div ?w)))
           [0..<unat width * unat height])"
    using laplacian_stencil_loops[of ?w ?h
        "map (\<lambda>k. grey_at B (k * 3)) [0..<unat width * unat height]", OF _ _ fit]
    by (simp add: n)
  have neg: "\<not> ?w * ?h < 0" using nn by linarith
  show ?thesis
    unfolding apply_laplacian_rgb_def Let_def d(3,4)
    using m by (simp only: if_False not_not p bnd_Inr neg g s) simp
qed

lemma laplacian_sample_range: "0 \<le> laplacian_sample grey w h x y \<and> laplacian_sample grey w h x y \<le> 255"
  by (simp add: laplacian_sample_def)

lemma uint_laplacian_sample:
  "uint (word_of_int (laplacian_sample grey w h x y) :: byte) = laplacian_sample grey w h x y"
proof -
  have "laplacian_sample grey w h x y mod 256 = laplacian_sample grey w h x y"
    using laplacian_sample_range[of grey w h x y] by (intro mod_pos_pos_trivial) simp_all
  then show ?thesis unfolding uint_word_of_int by simp
qed

lemma neighbour_uniform:
  assumes "1 \<le> w" "1 \<le> h" "length grey = nat (w * h)" "\<forall>k<length grey. grey ! k = v"
  shows "neighbour grey w h px py = uint v"
proof -
  have "nat (edge_clamp py h * w + edge_clamp px w) < length grey"
    using clamped_cell_range[OF assms(1,2), of py px] assms(3) by simp
  with assms(4) show ?thesis by (simp add: neighbour_def)
qed

lemma laplacian_sample_uniform:
  assumes "1 \<le> w" "1 \<le> h" "length grey = nat (w * h)" "\<forall>k<length grey. grey ! k = v"
  shows "laplacian_sample grey w h x y = 0"
  by (simp add: laplacian_sample_def neighbour_uniform[OF assms])

text \<open>
  Where the pixel count \<open>width * height\<close> fits \<open>int\<close>, the Laplacian is what the
  specification describes. For an RGB buffer with \<open>width * height * 3 = length\<close> it
  returns one sample per pixel, each within \<open>[0, 255]\<close>; the sample of pixel
  \<open>(x, y)\<close> is \<open>clamp(|4 center - top - bottom - left - right|, 0, 255)\<close> over the
  buffer the greyscale transform returns for the same input, read with edge-clamped
  coordinates; and an image whose pixels all have one colour gives an all-zero result.
\<close>

lemma laplacian_stencil_within_int:
  assumes dims: "unat width * unat height * 3 = length B"
    and fit: "uint width * uint height \<le> INT_MAX"
  shows "\<exists>grey out.
           apply_greyscale_rgb_simd B = Inr grey \<and>
           apply_laplacian_rgb B width height = Inr out \<and>
           length out = unat width * unat height \<and>
           (\<forall>i<length out. 0 \<le> uint (out ! i) \<and> uint (out ! i) \<le> 255) \<and>
           (\<forall>x<unat width. \<forall>y<unat height.
              uint (out ! (y * unat width + x)) =
                laplacian_sample grey (uint width) (uint height) (int x) (int y)) \<and>
           ((\<exists>r g b. \<forall>p<unat width * unat height.
                B ! (3 * p) = r \<and> B ! (3 * p + 1) = g \<and> B ! (3 * p + 2) = b)
              \<longrightarrow> out = replicate (unat width * unat height) 0)"
proof -
  define W H where "W = unat width" and "H = unat height"
  have u: "uint width = int W" "uint height = int H"
    by (simp_all add: W_def H_def)
  let ?grey = "map (\<lambda>k. grey_at B (k * 3)) [0..<W * H]"
  let ?out = "map (\<lambda>k. word_of_int (laplacian_sample ?grey
                 (int W) (int H) (int k mod int W) (int k div int W)) :: byte)
           [0..<W * H]"
  have m: "length B mod 3 = 0" "length B div 3 = W * H"
    using dims[symmetric] by (simp_all add: W_def H_def)
  have g: "apply_greyscale_rgb_simd B = Inr ?grey"
    using apply_greyscale_rgb_simd_map[OF m(1)] by (simp add: m(2))
  have l: "apply_laplacian_rgb B width height = Inr ?out"
    using apply_laplacian_rgb_eq[OF dims fit] unfolding u W_def[symmetric] H_def[symmetric] .
  have len: "length ?out = W * H" by simp
  have rng: "\<forall>i<length ?out. 0 \<le> uint (?out ! i) \<and> uint (?out ! i) \<le> 255"
    using laplacian_sample_range by (simp add: uint_laplacian_sample)
  have cell: "\<forall>x<W. \<forall>y<H. uint (?out ! (y * W + x)) =
                laplacian_sample ?grey (int W) (int H) (int x) (int y)"
  proof (intro allI impI)
    fix x y assume x: "x < W" and y: "y < H"
    have "int y * int W + int x < int W * int H"
      using cell_index_range(2)[of "int x" "int W" "int y" "int H"] x y by simp
    then have lt: "y * W + x < W * H"
      by (metis of_nat_add of_nat_less_iff of_nat_mult)
    have dm: "(int y * int W + int x) div int W = int y"
      "(int y * int W + int x) mod int W = int x"
      using cell_index_div_mod[of "int x" "int W" "int y"] x by simp_all
    show "uint (?out ! (y * W + x)) =
            laplacian_sample ?grey (int W) (int H) (int x) (int y)"
      using lt x by (simp add: uint_laplacian_sample dm)
  qed
  have uni: "(\<exists>r g b. \<forall>p<W * H.
                B ! (3 * p) = r \<and> B ! (3 * p + 1) = g \<and> B ! (3 * p + 2) = b)
              \<longrightarrow> ?out = replicate (W * H) 0"
  proof (intro impI, elim exE)
    fix r g b
    assume c: "\<forall>p<W * H. B ! (3 * p) = r \<and> B ! (3 * p + 1) = g \<and> B ! (3 * p + 2) = b"
    have gv: "\<forall>k<length ?grey. ?grey ! k = luminance r g b"
      using c by (simp add: grey_at_def mult.commute)
    show "?out = replicate (W * H) 0"
    proof (cases "W * H = 0")
      case True
      then show ?thesis by simp
    next
      case False
      then have wh: "1 \<le> int W" "1 \<le> int H" by simp_all
      have gl: "length ?grey = nat (int W * int H)"
        by (simp add: nat_mult_distrib)
      show ?thesis
        by (intro nth_equalityI)
           (simp_all add: laplacian_sample_uniform[OF wh gl gv])
    qed
  qed
  from g l len rng cell uni show ?thesis
    unfolding u W_def[symmetric] H_def[symmetric] by blast
qed

text \<open>The lemma at a one-colour image of two pixels, and the stencil at a black and a white pixel.\<close>

lemma laplacian_stencil_at_two_pixels:
  "apply_laplacian_rgb [10, 20, 30, 10, 20, 30] 2 1 = Inr [0, 0] \<and>
   apply_laplacian_rgb [0, 0, 0, 255, 255, 255] 2 1 = Inr [255, 255]"
proof
  have d: "unat (2 :: uint32) * unat (1 :: uint32) * 3 = length [10, 20, 30, 10, 20, 30 :: byte]"
    by simp
  have f: "uint (2 :: uint32) * uint (1 :: uint32) \<le> INT_MAX"
    by (simp add: INT_MAX_def)
  have c: "\<exists>r g b. \<forall>p<unat (2 :: uint32) * unat (1 :: uint32).
      [10, 20, 30, 10, 20, 30 :: byte] ! (3 * p) = r \<and>
      [10, 20, 30, 10, 20, 30 :: byte] ! (3 * p + 1) = g \<and>
      [10, 20, 30, 10, 20, 30 :: byte] ! (3 * p + 2) = b"
  proof (rule exI[of _ 10], rule exI[of _ 20], rule exI[of _ 30], intro allI impI)
    fix p assume "p < unat (2 :: uint32) * unat (1 :: uint32)"
    then have "p = 0 \<or> p = 1" by auto
    then show "[10, 20, 30, 10, 20, 30 :: byte] ! (3 * p) = 10 \<and>
      [10, 20, 30, 10, 20, 30 :: byte] ! (3 * p + 1) = 20 \<and>
      [10, 20, 30, 10, 20, 30 :: byte] ! (3 * p + 2) = 30"
      by auto
  qed
  have n: "unat (2 :: uint32) * unat (1 :: uint32) = 2" by simp
  have r: "replicate (unat (2 :: uint32) * unat (1 :: uint32)) (0 :: byte) = [0, 0]"
    unfolding n by (simp add: numeral_2_eq_2)
  from laplacian_stencil_within_int[OF d f] c
  have "apply_laplacian_rgb [10, 20, 30, 10, 20, 30] 2 1 =
      Inr (replicate (unat (2 :: uint32) * unat (1 :: uint32)) 0)"
    by blast
  then show "apply_laplacian_rgb [10, 20, 30, 10, 20, 30] 2 1 = Inr [0, 0]"
    by (simp only: r)
  have d': "unat (2 :: uint32) * unat (1 :: uint32) * 3 = length [0, 0, 0, 255, 255, 255 :: byte]"
    by simp
  have u: "[0..<2] = [0, 1]" by (simp add: upt_rec)
  show "apply_laplacian_rgb [0, 0, 0, 255, 255, 255] 2 1 = Inr [255, 255]"
    unfolding apply_laplacian_rgb_eq[OF d' f]
    by (simp add: u laplacian_sample_def neighbour_def edge_clamp_def grey_at_def luminance_def)
qed

text \<open>
  Claim C3 promises the stencil result, of length \<open>width * height\<close>, for every RGB
  buffer with \<open>width * height * 3 = length\<close>. The pixel count is computed as the
  \<open>int\<close> product \<open>w * h\<close>. For a 46341 x 46341 image the product is 2147488281,
  above \<open>INT_MAX\<close>: the Laplacian stops in the signed overflow. For a
  2147483648 x 1 image \<open>w\<close> is \<open>-2147483648\<close>, the product is negative and the
  allocation of the greyscale buffer throws. In neither case is a buffer returned.
\<close>

theorem laplacian_pixel_count_overflow:
  "apply_laplacian_rgb (replicate 6442464843 0) 46341 46341 = Inl SignedOverflow \<and>
   apply_laplacian_rgb (replicate 6442450944 0) 2147483648 1 = Inl LengthError"
proof
  have "mul_int 46341 46341 = Inl SignedOverflow"
    by (simp add: mul_int_def int_result_def INT_MAX_def)
  then show "apply_laplacian_rgb (replicate 6442464843 0) 46341 46341 = Inl SignedOverflow"
    by (simp add: apply_laplacian_rgb_def Let_def)
  have "mul_int (- 2147483648) 1 = Inr (- 2147483648)"
    by (simp add: mul_int_def int_result_def INT_MIN_def INT_MAX_def)
  then show "apply_laplacian_rgb (replicate 6442450944 0) 2147483648 1 = Inl LengthError"
    by (simp add: apply_laplacian_rgb_def Let_def)
qed

section \<open>The kernel generator\<close>

lemma square_bound:
  fixes x r :: int
  assumes "- r \<le> x" "x \<le> r" "r \<le> 46340"
  shows "x * x \<le> INT_MAX"
proof -
  have "\<bar>x\<bar> \<le> 46340" using assms by simp
  then have "\<bar>x\<bar> * \<bar>x\<bar> \<le> 46340 * 46340"
    by (intro mult_mono) simp_all
  moreover have "\<bar>x\<bar> * \<bar>x\<bar> = x * x" by (simp add: abs_mult_self_eq)
  ultimately show ?thesis by (simp add: INT_MAX_def)
qed

lemma gauss_weight_symmetric: "gauss_weight ops sigma (- i) = gauss_weight ops sigma i"
  by (simp add: gauss_weight_def)

lemma kernel_body_value:
  assumes "0 \<le> i" "i < 2 * radius + 1" "radius \<le> 46340" "length kern = nat (2 * radius + 1)"
  shows "kernel_body ops sigma radius i (kern, s) =
           Inr (kern[nat i := gauss_weight ops sigma (i - radius)],
                fp_add ops s (gauss_weight ops sigma (i - radius)))"
proof -
  have "(i - radius) * (i - radius) \<le> INT_MAX"
    using assms by (intro square_bound[where r = radius]) simp_all
  moreover have "i < int (length kern)" using assms by simp
  ultimately show ?thesis
    using assms(1) by (simp add: kernel_body_def Let_def wr_in_range gauss_weight_def)
qed

lemma kernel_loop_value:
  assumes r: "0 \<le> radius" "radius \<le> 46340"
  shows "\<exists>kern. for_range 0 (2 * radius + 1) (kernel_body ops sigma radius)
            (replicate (nat (2 * radius + 1)) z, z) =
            Inr (kern, foldl (fp_add ops) z (map (gauss_weight ops sigma) [- radius..radius])) \<and>
          length kern = nat (2 * radius + 1) \<and>
          (\<forall>k<nat (2 * radius + 1). kern ! k = gauss_weight ops sigma (int k - radius))"
proof -
  let ?W = "gauss_weight ops sigma"
  let ?I = "\<lambda>(j::int) (st :: 'a list \<times> 'a). length (fst st) = nat (2 * radius + 1) \<and>
      (\<forall>k<nat j. fst st ! k = ?W (int k - radius)) \<and>
      snd st = foldl (fp_add ops) z (map ?W [- radius..j - radius - 1])"
  have "\<exists>st. for_range 0 (2 * radius + 1) (kernel_body ops sigma radius)
            (replicate (nat (2 * radius + 1)) z, z) = Inr st \<and> ?I (2 * radius + 1) st"
  proof (rule for_range_inv[where I = ?I])
    show "?I 0 (replicate (nat (2 * radius + 1)) z, z)" by simp
    show "0 \<le> 2 * radius + 1" using r by simp
  next
    fix j and t :: "'a list \<times> 'a"
    assume j: "0 \<le> j" "j < 2 * radius + 1" and inv: "?I j t"
    obtain kern s where t: "t = (kern, s)" by (cases t)
    from inv t have len: "length kern = nat (2 * radius + 1)"
      and pre: "\<forall>k<nat j. kern ! k = ?W (int k - radius)"
      and s: "s = foldl (fp_add ops) z (map ?W [- radius..j - radius - 1])" by simp_all
    have b: "kernel_body ops sigma radius j t =
        Inr (kern[nat j := ?W (j - radius)], fp_add ops s (?W (j - radius)))"
      unfolding t by (rule kernel_body_value[OF j r(2) len])
    have nj: "nat (j + 1) = Suc (nat j)" using j by simp
    have lt: "nat j < length kern" using j len by simp
    have p': "\<forall>k<nat (j + 1). kern[nat j := ?W (j - radius)] ! k = ?W (int k - radius)"
      using pre lt j by (auto simp: nj nth_list_update less_Suc_eq)
    have up: "[- radius..j + 1 - radius - 1] = [- radius..j - radius - 1] @ [j - radius]"
      using j by (simp add: upto_rec2)
    have s': "fp_add ops s (?W (j - radius)) =
        foldl (fp_add ops) z (map ?W [- radius..j + 1 - radius - 1])"
      unfolding up s by simp
    show "\<exists>t'. kernel_body ops sigma radius j t = Inr t' \<and> ?I (j + 1) t'"
      using b len p' s' by simp
  qed
  then obtain kern s where
    st: "for_range 0 (2 * radius + 1) (kernel_body ops sigma radius)
            (replicate (nat (2 * radius + 1)) z, z) = Inr (kern, s)"
    and i: "?I (2 * radius + 1) (kern, s)" by auto
  have "2 * radius + 1 - radius - 1 = radius" by simp
  with i have "s = foldl (fp_add ops) z (map ?W [- radius..radius])" by simp
  with st i show ?thesis by simp
qed

text \<open>
  With a radius of at most 46340 the generator returns: the radius is
  \<open>max(1, ceil(3 sigma))\<close>, the kernel has \<open>2 radius + 1\<close> weights, the weight of offset
  \<open>i\<close> is \<open>exp(-(i * i) / (2 sigma sigma))\<close> divided by the sum of all of them, and the
  weights of \<open>i\<close> and \<open>- i\<close> are equal. This holds in every arithmetic.
\<close>

lemma gaussian_kernel_structure:
  assumes "INT_MIN \<le> ceil_3sigma ops sigma" "ceil_3sigma ops sigma \<le> 46340"
  shows "\<exists>kern.
           generate_gaussian_kernel ops sigma = Inr (kern, max 1 (ceil_3sigma ops sigma)) \<and>
           length kern = nat (2 * max 1 (ceil_3sigma ops sigma) + 1) \<and>
           (\<forall>i. - max 1 (ceil_3sigma ops sigma) \<le> i \<and> i \<le> max 1 (ceil_3sigma ops sigma) \<longrightarrow>
              kern ! nat (i + max 1 (ceil_3sigma ops sigma)) =
                fp_div ops (gauss_weight ops sigma i)
                  (foldl (fp_add ops) (fp_of_int ops 0)
                     (map (gauss_weight ops sigma)
                        [- max 1 (ceil_3sigma ops sigma)..max 1 (ceil_3sigma ops sigma)])) \<and>
              kern ! nat (i + max 1 (ceil_3sigma ops sigma)) =
                kern ! nat (- i + max 1 (ceil_3sigma ops sigma)))"
proof -
  let ?c = "ceil_3sigma ops sigma"
  let ?r = "max 1 ?c"
  let ?W = "gauss_weight ops sigma"
  let ?tot = "foldl (fp_add ops) (fp_of_int ops 0) (map ?W [- ?r..?r])"
  have r: "0 \<le> ?r" "?r \<le> 46340" using assms(2) by simp_all
  from kernel_loop_value[OF r, of ops sigma "fp_of_int ops 0"]
  obtain raw where k: "for_range 0 (2 * ?r + 1) (kernel_body ops sigma ?r)
            (replicate (nat (2 * ?r + 1)) (fp_of_int ops 0), fp_of_int ops 0) = Inr (raw, ?tot)"
    "length raw = nat (2 * ?r + 1)"
    "\<forall>k<nat (2 * ?r + 1). raw ! k = ?W (int k - ?r)" by blast
  have "\<not> (?c < INT_MIN \<or> INT_MAX < ?c)" using assms by (simp add: INT_MAX_def)
  moreover have "\<not> INT_MAX < 2 * ?r + 1" using r by (simp add: INT_MAX_def)
  ultimately have g: "generate_gaussian_kernel ops sigma =
      Inr (map (\<lambda>v. fp_div ops v ?tot) raw, ?r)"
    using k(1) by (simp add: generate_gaussian_kernel_def Let_def)
  have entry: "map (\<lambda>v. fp_div ops v ?tot) raw ! nat (i + ?r) = fp_div ops (?W i) ?tot"
    if "- ?r \<le> i" "i \<le> ?r" for i
  proof -
    from that have lt: "nat (i + ?r) < nat (2 * ?r + 1)" by simp
    have "int (nat (i + ?r)) - ?r = i" using that by simp
    with k(3) lt have "raw ! nat (i + ?r) = ?W i" by simp
    with lt k(2) show ?thesis by simp
  qed
  have "\<forall>i. - ?r \<le> i \<and> i \<le> ?r \<longrightarrow>
      map (\<lambda>v. fp_div ops v ?tot) raw ! nat (i + ?r) = fp_div ops (?W i) ?tot \<and>
      map (\<lambda>v. fp_div ops v ?tot) raw ! nat (i + ?r) =
        map (\<lambda>v. fp_div ops v ?tot) raw ! nat (- i + ?r)"
  proof (intro allI impI conjI)
    fix i assume i: "- ?r \<le> i \<and> i \<le> ?r"
    then show "map (\<lambda>v. fp_div ops v ?tot) raw ! nat (i + ?r) = fp_div ops (?W i) ?tot"
      by (intro entry) simp_all
    from i have "map (\<lambda>v. fp_div ops v ?tot) raw ! nat (- i + ?r) = fp_div ops (?W (- i)) ?tot"
      by (intro entry) simp_all
    with entry[of i] i
    show "map (\<lambda>v. fp_div ops v ?tot) raw ! nat (i + ?r) =
        map (\<lambda>v. fp_div ops v ?tot) raw ! nat (- i + ?r)"
      by (simp add: gauss_weight_symmetric)
  qed
  with g k(2) show ?thesis by auto
qed

lemma generate_ok:
  assumes "INT_MIN \<le> ceil_3sigma ops sigma" "ceil_3sigma ops sigma \<le> 46340"
  shows "\<exists>kern. generate_gaussian_kernel ops sigma = Inr (kern, max 1 (ceil_3sigma ops sigma)) \<and>
          length kern = nat (2 * max 1 (ceil_3sigma ops sigma) + 1)"
  using gaussian_kernel_structure[OF assms] by blast

text \<open>Beyond 46340 the first iteration already overflows, at \<open>x = - radius\<close>.\<close>

lemma kernel_loop_overflow:
  assumes "46340 < radius" "2 * radius + 1 \<le> INT_MAX"
  shows "for_range 0 (2 * radius + 1) (kernel_body ops sigma radius) st = Inl SignedOverflow"
proof -
  have "46341 * 46341 \<le> radius * radius"
    using assms(1) by (intro mult_mono) simp_all
  then have "INT_MAX < (0 - radius) * (0 - radius)" by (simp add: INT_MAX_def)
  then have "kernel_body ops sigma radius 0 st = Inl SignedOverflow"
    by (simp add: kernel_body_def Let_def split: prod.split)
  moreover have "0 < 2 * radius + 1" using assms(1) by simp
  ultimately show ?thesis by (rule for_range_step_Inl[rotated])
qed

lemma generate_cast_overflow:
  assumes "ceil_3sigma ops sigma < INT_MIN \<or> INT_MAX < ceil_3sigma ops sigma"
  shows "generate_gaussian_kernel ops sigma = Inl FloatCastOverflow"
  using assms by (auto simp: generate_gaussian_kernel_def Let_def)

lemma generate_square_overflow:
  assumes "46340 < ceil_3sigma ops sigma" "ceil_3sigma ops sigma \<le> INT_MAX"
  shows "generate_gaussian_kernel ops sigma = Inl SignedOverflow"
proof -
  let ?c = "ceil_3sigma ops sigma"
  let ?r = "max 1 ?c"
  from assms have nc: "\<not> (?c < INT_MIN \<or> INT_MAX < ?c)" by (simp add: INT_MIN_def)
  from assms(1) have r: "?r = ?c" by simp
  show ?thesis
  proof (cases "INT_MAX < 2 * ?r + 1")
    case True
    with nc show ?thesis
      by (simp add: generate_gaussian_kernel_def Let_def)
  next
    case False
    have "for_range 0 (2 * ?r + 1) (kernel_body ops sigma ?r)
        (replicate (nat (2 * ?r + 1)) (fp_of_int ops 0), fp_of_int ops 0) = Inl SignedOverflow"
      using assms(1) False by (intro kernel_loop_overflow) simp_all
    with nc False show ?thesis
      by (simp add: generate_gaussian_kernel_def Let_def)
  qed
qed

lemma generate_result_cases:
  "(\<exists>kern. generate_gaussian_kernel ops sigma = Inr (kern, max 1 (ceil_3sigma ops sigma)) \<and>
      length kern = nat (2 * max 1 (ceil_3sigma ops sigma) + 1) \<and>
      max 1 (ceil_3sigma ops sigma) \<le> 46340) \<or>
   generate_gaussian_kernel ops sigma = Inl FloatCastOverflow \<or>
   generate_gaussian_kernel ops sigma = Inl SignedOverflow"
proof -
  let ?c = "ceil_3sigma ops sigma"
  consider "?c < INT_MIN \<or> INT_MAX < ?c" | "46340 < ?c" "?c \<le> INT_MAX"
    | "INT_MIN \<le> ?c" "?c \<le> 46340"
    by linarith
  then show ?thesis
  proof cases
    case 1
    then show ?thesis by (simp add: generate_cast_overflow)
  next
    case 2
    then show ?thesis by (simp add: generate_square_overflow)
  next
    case 3
    from 3(2) have "max 1 ?c \<le> 46340" by simp
    with 3 show ?thesis using generate_ok[of ops sigma] by blast
  qed
qed

section \<open>The two passes of the blur\<close>

lemma for_range_fill3:
  fixes F :: "int \<Rightarrow> int \<Rightarrow> int \<Rightarrow> 'a"
    and body :: "int \<Rightarrow> int \<Rightarrow> int \<Rightarrow> 'a list \<Rightarrow> error + 'a list"
  assumes body: "\<And>y x c t. 0 \<le> y \<Longrightarrow> y < h \<Longrightarrow> 0 \<le> x \<Longrightarrow> x < w \<Longrightarrow> 0 \<le> c \<Longrightarrow> c < 3 \<Longrightarrow>
                   length t = nat (w * h * 3) \<Longrightarrow>
                   body y x c t = Inr (t[nat ((y * w + x) * 3 + c) := F y x c])"
    and w: "0 \<le> w" and h: "0 \<le> h" and t0: "length t0 = nat (w * h * 3)"
  shows "for_range 0 h (\<lambda>y. for_range 0 w (\<lambda>x. for_range 0 3 (\<lambda>c. body y x c))) t0 =
         Inr (map (\<lambda>i. F ((int i div 3) div w) ((int i div 3) mod w) (int i mod 3))
                [0..<nat (w * h * 3)])"
proof -
  let ?N = "nat (w * h * 3)"
  let ?G = "\<lambda>i. F ((int i div 3) div w) ((int i div 3) mod w) (int i mod 3)"
  have chan: "\<exists>t'. for_range 0 3 (\<lambda>c. body y x c) t = Inr t' \<and> length t' = ?N \<and>
                (\<forall>k<nat ((y * w + x) * 3 + 3). t' ! k = ?G k)"
    if y: "0 \<le> y" "y < h" and x: "0 \<le> x" "x < w" and t: "length t = ?N"
      and pre: "\<forall>k<nat ((y * w + x) * 3). t ! k = ?G k" for y x t
  proof (rule for_range_fill[where G = ?G])
    fix c :: int and u :: "'a list"
    assume c: "0 \<le> c" "c < 3" and u: "length u = ?N"
    have i: "int (nat ((y * w + x) * 3 + c)) = (y * w + x) * 3 + c"
      using sample_index_range(1)[OF x y c] by simp
    show "body y x c u =
        Inr (u[nat ((y * w + x) * 3 + c) := ?G (nat ((y * w + x) * 3 + c))])"
      by (simp only: body[OF y x c u] i sample_index_div_mod[OF x c])
  next
    show "0 \<le> (y * w + x) * 3" using cell_index_range(1)[OF x y] by simp
    show "nat ((y * w + x) * 3 + 3) \<le> ?N"
      using cell_index_range(2)[OF x y] by simp
  qed (use t pre in simp_all)
  have row: "\<exists>t'. for_range 0 w (\<lambda>x. for_range 0 3 (\<lambda>c. body y x c)) t = Inr t' \<and>
                length t' = ?N \<and> (\<forall>k<nat (y * w * 3 + w * 3). t' ! k = ?G k)"
    if y: "0 \<le> y" "y < h" and t: "length t = ?N"
      and pre: "\<forall>k<nat (y * w * 3). t ! k = ?G k" for y t
  proof (rule for_range_blocks[where G = ?G])
    fix x and u :: "'a list"
    assume x: "0 \<le> x" "x < w" and u: "length u = ?N"
      and p: "\<forall>k<nat (y * w * 3 + x * 3). u ! k = ?G k"
    have e1: "y * w * 3 + x * 3 = (y * w + x) * 3" by (simp add: algebra_simps)
    have e2: "y * w * 3 + (x + 1) * 3 = (y * w + x) * 3 + 3" by (simp add: algebra_simps)
    show "\<exists>t'. for_range 0 3 (\<lambda>c. body y x c) u = Inr t' \<and> length t' = ?N \<and>
        (\<forall>k<nat (y * w * 3 + (x + 1) * 3). t' ! k = ?G k)"
      unfolding e2 using chan[OF y x u] p unfolding e1 by blast
  qed (use w t pre in simp_all)
  have "\<exists>t'. for_range 0 h (\<lambda>y. for_range 0 w (\<lambda>x. for_range 0 3 (\<lambda>c. body y x c))) t0 = Inr t' \<and>
          length t' = ?N \<and> (\<forall>k<nat (0 + h * (w * 3)). t' ! k = ?G k)"
  proof (rule for_range_blocks[where G = ?G])
    fix y and u :: "'a list"
    assume y: "0 \<le> y" "y < h" and u: "length u = ?N"
      and p: "\<forall>k<nat (0 + y * (w * 3)). u ! k = ?G k"
    have e1: "0 + y * (w * 3) = y * w * 3" by simp
    have e2: "0 + (y + 1) * (w * 3) = y * w * 3 + w * 3" by (simp add: algebra_simps)
    show "\<exists>t'. for_range 0 w (\<lambda>x. for_range 0 3 (\<lambda>c. body y x c)) u = Inr t' \<and>
        length t' = ?N \<and> (\<forall>k<nat (0 + (y + 1) * (w * 3)). t' ! k = ?G k)"
      unfolding e2 using row[OF y u] p unfolding e1 by blast
  qed (use h t0 in simp_all)
  then obtain t' where r: "for_range 0 h (\<lambda>y. for_range 0 w (\<lambda>x. for_range 0 3 (\<lambda>c. body y x c))) t0 = Inr t'"
    "length t' = ?N" "\<forall>k<nat (0 + h * (w * 3)). t' ! k = ?G k" by blast
  have "0 + h * (w * 3) = w * h * 3" by simp
  with r(3) have "\<forall>k<?N. t' ! k = ?G k" by (simp only:)
  with r(2) have "t' = map ?G [0..<?N]" by (rule filled_eq_map)
  with r(1) show ?thesis by simp
qed

text \<open>
  Where the buffer has at most \<open>INT_MAX\<close> samples, every \<open>int\<close> expression of the
  two innermost loops is in range and every access is inside its vector: each body
  stores one clamped and truncated convolution sum.
\<close>

lemma tap_arithmetic_ok:
  fixes x k w h radius :: int
  assumes x: "0 \<le> x" "x < w" and h: "1 \<le> h" and fit: "w * h * 3 \<le> INT_MAX"
    and r: "radius \<le> 46340" and k: "- radius \<le> k" "k < radius + 1"
  shows "add_int x k = Inr (x + k)" "sub_int w 1 = Inr (w - 1)"
    "add_int k radius = Inr (k + radius)"
proof -
  from x have w1: "1 \<le> w" by simp
  have "w \<le> w * h" by (rule dimension_bounds(1)[OF w1 h])
  with fit have w3: "w * 3 \<le> INT_MAX" by simp
  from x w3 r k show "add_int x k = Inr (x + k)"
    by (intro add_int_ok) (simp_all add: INT_MIN_def INT_MAX_def)
  from w1 w3 show "sub_int w 1 = Inr (w - 1)"
    by (intro sub_int_ok) (simp_all add: INT_MIN_def INT_MAX_def)
  from r k show "add_int k radius = Inr (k + radius)"
    by (intro add_int_ok) (simp_all add: INT_MIN_def INT_MAX_def)
qed

lemma gaussian_h_body_stores:
  assumes x: "0 \<le> x" "x < w" and y: "0 \<le> y" "y < h" and c: "0 \<le> c" "c < 3"
    and r: "0 \<le> radius" "radius \<le> 46340" and lk: "length kern = nat (2 * radius + 1)"
    and fit: "w * h * 3 \<le> INT_MAX"
    and ls: "length src = nat (w * h * 3)" and lt: "length temp = nat (w * h * 3)"
  shows "gaussian_h_body ops kern radius src w 3 y x c temp =
     Inr (temp[nat ((y * w + x) * 3 + c) :=
            to_sample ops (convolve ops kern radius
              (\<lambda>k. src ! nat ((y * w + edge_clamp (x + k) w) * 3 + c)))])"
proof -
  let ?g = "\<lambda>acc k. fp_add ops acc (fp_mul ops (kern ! nat (k + radius))
              (fp_of_int ops (uint (src ! nat ((y * w + edge_clamp (x + k) w) * 3 + c)))))"
  from x have w1: "1 \<le> w" by simp
  from y have h1: "1 \<le> h" by simp
  have inner: "for_range (- radius) (radius + 1)
            (\<lambda>k sum.
               bnd (add_int x k) (\<lambda>xk.
               bnd (sub_int w 1) (\<lambda>w1.
                 let sx = clamp_int xk 0 w1
                 in bnd (add_int k radius) (\<lambda>ki.
                    bnd (rd kern ki) (\<lambda>kv.
                    bnd (sample_index y w sx 3 c) (\<lambda>idx.
                    bnd (rd src idx) (\<lambda>sv.
                      Inr (fp_add ops sum (fp_mul ops kv (fp_of_int ops (uint sv)))))))))))
            (fp_of_int ops 0) = Inr (foldl ?g (fp_of_int ops 0) [- radius..radius + 1 - 1])"
  proof (rule for_range_foldl)
    fix k :: int and acc
    assume k: "- radius \<le> k" "k < radius + 1"
    note a = tap_arithmetic_ok[OF x h1 fit r(2) k]
    have kr: "0 \<le> k + radius" "k + radius < int (length kern)"
      using k lk by simp_all
    have ex: "0 \<le> edge_clamp (x + k) w" "edge_clamp (x + k) w < w"
      using edge_clamp_range[OF w1, of "x + k"] by simp_all
    have si: "0 \<le> (y * w + edge_clamp (x + k) w) * 3 + c"
      "(y * w + edge_clamp (x + k) w) * 3 + c < int (length src)"
      using sample_index_range[OF ex y c] ls by simp_all
    show "bnd (add_int x k) (\<lambda>xk.
               bnd (sub_int w 1) (\<lambda>w1.
                 let sx = clamp_int xk 0 w1
                 in bnd (add_int k radius) (\<lambda>ki.
                    bnd (rd kern ki) (\<lambda>kv.
                    bnd (sample_index y w sx 3 c) (\<lambda>idx.
                    bnd (rd src idx) (\<lambda>sv.
                      Inr (fp_add ops acc (fp_mul ops kv (fp_of_int ops (uint sv)))))))))) =
          Inr (?g acc k)"
      by (simp only: a Let_def clamp_int_edge[OF w1] rd_in_range[OF kr]
          sample_index_ok[OF ex y c fit] rd_in_range[OF si] bnd_Inr)
  qed
  have wi: "0 \<le> (y * w + x) * 3 + c" "(y * w + x) * 3 + c < int (length temp)"
    using sample_index_range[OF x y c] lt by simp_all
  have e: "radius + 1 - 1 = radius" by simp
  show ?thesis
    by (simp only: gaussian_h_body_def inner bnd_Inr sample_index_ok[OF x y c fit]
        wr_in_range[OF wi] convolve_def e)
qed

lemma gaussian_v_body_stores:
  assumes x: "0 \<le> x" "x < w" and y: "0 \<le> y" "y < h" and c: "0 \<le> c" "c < 3"
    and r: "0 \<le> radius" "radius \<le> 46340" and lk: "length kern = nat (2 * radius + 1)"
    and fit: "w * h * 3 \<le> INT_MAX"
    and ls: "length temp = nat (w * h * 3)" and lt: "length output = nat (w * h * 3)"
  shows "gaussian_v_body ops kern radius temp w h 3 y x c output =
     Inr (output[nat ((y * w + x) * 3 + c) :=
            to_sample ops (convolve ops kern radius
              (\<lambda>k. temp ! nat ((edge_clamp (y + k) h * w + x) * 3 + c)))])"
proof -
  let ?g = "\<lambda>acc k. fp_add ops acc (fp_mul ops (kern ! nat (k + radius))
              (fp_of_int ops (uint (temp ! nat ((edge_clamp (y + k) h * w + x) * 3 + c)))))"
  from x have w1: "1 \<le> w" by simp
  from y have h1: "1 \<le> h" by simp
  have fit': "h * w * 3 \<le> INT_MAX" using fit by (simp add: mult.commute)
  have inner: "for_range (- radius) (radius + 1)
            (\<lambda>k sum.
               bnd (add_int y k) (\<lambda>yk.
               bnd (sub_int h 1) (\<lambda>h1.
                 let sy = clamp_int yk 0 h1
                 in bnd (add_int k radius) (\<lambda>ki.
                    bnd (rd kern ki) (\<lambda>kv.
                    bnd (sample_index sy w x 3 c) (\<lambda>idx.
                    bnd (rd temp idx) (\<lambda>sv.
                      Inr (fp_add ops sum (fp_mul ops kv (fp_of_int ops (uint sv)))))))))))
            (fp_of_int ops 0) = Inr (foldl ?g (fp_of_int ops 0) [- radius..radius + 1 - 1])"
  proof (rule for_range_foldl)
    fix k :: int and acc
    assume k: "- radius \<le> k" "k < radius + 1"
    note a = tap_arithmetic_ok[OF y w1 fit' r(2) k]
    have kr: "0 \<le> k + radius" "k + radius < int (length kern)"
      using k lk by simp_all
    have ey: "0 \<le> edge_clamp (y + k) h" "edge_clamp (y + k) h < h"
      using edge_clamp_range[OF h1, of "y + k"] by simp_all
    have si: "0 \<le> (edge_clamp (y + k) h * w + x) * 3 + c"
      "(edge_clamp (y + k) h * w + x) * 3 + c < int (length temp)"
      using sample_index_range[OF x ey c] ls by simp_all
    show "bnd (add_int y k) (\<lambda>yk.
               bnd (sub_int h 1) (\<lambda>h1.
                 let sy = clamp_int yk 0 h1
                 in bnd (add_int k radius) (\<lambda>ki.
                    bnd (rd kern ki) (\<lambda>kv.
                    bnd (sample_index sy w x 3 c) (\<lambda>idx.
                    bnd (rd temp idx) (\<lambda>sv.
                      Inr (fp_add ops acc (fp_mul ops kv (fp_of_int ops (uint sv)))))))))) =
          Inr (?g acc k)"
      by (simp only: a Let_def clamp_int_edge[OF h1] rd_in_range[OF kr]
          sample_index_ok[OF x ey c fit] rd_in_range[OF si] bnd_Inr)
  qed
  have wi: "0 \<le> (y * w + x) * 3 + c" "(y * w + x) * 3 + c < int (length output)"
    using sample_index_range[OF x y c] lt by simp_all
  have e: "radius + 1 - 1 = radius" by simp
  show ?thesis
    by (simp only: gaussian_v_body_def inner bnd_Inr sample_index_ok[OF x y c fit]
        wr_in_range[OF wi] convolve_def e)
qed

lemma horizontal_loops:
  assumes "0 \<le> w" "0 \<le> h" "0 \<le> radius" "radius \<le> 46340"
    "length kern = nat (2 * radius + 1)" "w * h * 3 \<le> INT_MAX"
    "length src = nat (w * h * 3)" "length t0 = nat (w * h * 3)"
  shows "for_range 0 h (\<lambda>y. for_range 0 w (\<lambda>x. for_range 0 3
            (\<lambda>c. gaussian_h_body ops kern radius src w 3 y x c))) t0 =
         Inr (horizontal_pass ops kern radius src w h)"
  unfolding horizontal_pass_def Let_def
  by (rule for_range_fill3[where F = "\<lambda>y x c. to_sample ops (convolve ops kern radius
              (\<lambda>k. src ! nat ((y * w + edge_clamp (x + k) w) * 3 + c)))"])
     (simp_all add: gaussian_h_body_stores assms)

lemma vertical_loops:
  assumes "0 \<le> w" "0 \<le> h" "0 \<le> radius" "radius \<le> 46340"
    "length kern = nat (2 * radius + 1)" "w * h * 3 \<le> INT_MAX"
    "length temp = nat (w * h * 3)" "length t0 = nat (w * h * 3)"
  shows "for_range 0 h (\<lambda>y. for_range 0 w (\<lambda>x. for_range 0 3
            (\<lambda>c. gaussian_v_body ops kern radius temp w h 3 y x c))) t0 =
         Inr (vertical_pass ops kern radius temp w h)"
  unfolding vertical_pass_def Let_def
  by (rule for_range_fill3[where F = "\<lambda>y x c. to_sample ops (convolve ops kern radius
              (\<lambda>k. temp ! nat ((edge_clamp (y + k) h * w + x) * 3 + c)))"])
     (simp_all add: gaussian_v_body_stores assms)

lemma empty_image_loops3:
  fixes width height :: uint32
  assumes "unat width * unat height = 0"
  shows "for_range 0 (sint height) (\<lambda>y. for_range 0 (sint width) (\<lambda>x. for_range 0 n (body y x))) s =
           Inr s"
  by (rule empty_image_loops[OF assms])

lemma apply_gaussian_rgb_eq:
  assumes dims: "unat width * unat height * 3 = length B"
    and fit: "int (length B) \<le> INT_MAX"
    and gen: "generate_gaussian_kernel ops (blur_sigma ops strength) = Inr (kern, radius)"
    and r: "0 \<le> radius" "radius \<le> 46340" and lk: "length kern = nat (2 * radius + 1)"
  shows "apply_gaussian_rgb ops B width height strength =
           Inr (vertical_pass ops kern radius
                (horizontal_pass ops kern radius B (uint width) (uint height))
                (uint width) (uint height))"
proof (cases "unat width * unat height = 0")
  case True
  with dims have "length B = 0" by (simp only: mult_0)
  then have e: "B = []" by simp
  have z: "uint width * uint height = 0"
    using True by (auto simp: unat_eq_0 uint_0_iff)
  have p: "horizontal_pass ops kern radius [] (uint width) (uint height) = []"
    "vertical_pass ops kern radius [] (uint width) (uint height) = []"
    by (simp_all add: horizontal_pass_def vertical_pass_def z)
  show ?thesis
    unfolding apply_gaussian_rgb_def Let_def e
    by (simp add: gen[unfolded e] empty_image_loops3[OF True] p)
next
  case False
  let ?w = "uint width" and ?h = "uint height"
  have n: "nat (?w * ?h) = unat width * unat height" by (rule pixel_count_nat)
  have nn: "0 \<le> ?w * ?h" by simp
  have l: "length B = nat (?w * ?h * 3)"
    using dims[symmetric] n nn by (simp add: nat_mult_distrib)
  have f3: "?w * ?h * 3 \<le> INT_MAX"
    using fit l nn by simp
  then have f1: "?w * ?h \<le> INT_MAX" using nn by linarith
  note d = nonempty_image_dimensions[OF False f1]
  have m: "length B mod 3 = 0" using dims[symmetric] by simp
  have hp: "for_range 0 ?h (\<lambda>y. for_range 0 ?w (\<lambda>x. for_range 0 3
            (\<lambda>c. gaussian_h_body ops kern radius B ?w 3 y x c)))
            (replicate (length B) 0) =
         Inr (horizontal_pass ops kern radius B ?w ?h)"
    by (rule horizontal_loops) (simp_all add: r lk l f3)
  have lh: "length (horizontal_pass ops kern radius B ?w ?h) = nat (?w * ?h * 3)"
    by (simp add: horizontal_pass_def)
  have vp: "for_range 0 ?h (\<lambda>y. for_range 0 ?w (\<lambda>x. for_range 0 3
            (\<lambda>c. gaussian_v_body ops kern radius
               (horizontal_pass ops kern radius B ?w ?h) ?w ?h 3 y x c)))
            (replicate (length B) 0) =
         Inr (vertical_pass ops kern radius (horizontal_pass ops kern radius B ?w ?h) ?w ?h)"
    by (rule vertical_loops) (simp_all add: r lk l lh f3)
  show ?thesis
    unfolding apply_gaussian_rgb_def Let_def d(3,4)
    using m by (simp add: gen hp vp)
qed

section \<open>Which errors the spatial filters can raise\<close>

lemma for_range_error_kind:
  assumes "\<And>j t e. i \<le> j \<Longrightarrow> j < n \<Longrightarrow> body j t = Inl e \<Longrightarrow> E e"
    and "for_range i n body s = Inl e"
  shows "E e"
  using assms
proof (induction i n body s rule: for_range.induct)
  case (1 i n body s)
  show ?case
  proof (cases "i < n")
    case False
    with 1(3) show ?thesis by (simp add: for_range_done)
  next
    case True
    show ?thesis
    proof (cases "body i s")
      case (Inl e')
      with True 1(3) have "e' = e"
        by (simp add: for_range_step_Inl[of i n body s e'])
      with 1(2)[OF order_refl True Inl] show ?thesis by simp
    next
      case (Inr s')
      with True 1(3) have "for_range (i + 1) n body s' = Inl e"
        by (simp add: for_range_step_Inr[of i n body s s'])
      moreover have "E e'" if "i + 1 \<le> j" "j < n" "body j t = Inl e'" for j t e'
        using 1(2)[of j t e'] that by simp
      ultimately show ?thesis
        using 1(1)[OF True Inr] by blast
    qed
  qed
qed

lemma rd_error: "rd xs i = Inl e \<Longrightarrow> e = OutOfBounds"
  by (simp add: rd_def split: if_splits)

lemma wr_error: "wr xs i v = Inl e \<Longrightarrow> e = OutOfBounds"
  by (simp add: wr_def split: if_splits)

lemma bnd_error: "bnd m f = Inl e \<Longrightarrow> (m = Inl e \<or> (\<exists>v. m = Inr v \<and> f v = Inl e))"
  by (cases m) simp_all

lemma int_result_error: "int_result v = Inl e \<Longrightarrow> e = SignedOverflow"
  by (simp add: int_result_def split: if_splits)

lemma add_int_error: "add_int a b = Inl e \<Longrightarrow> e = SignedOverflow"
  unfolding add_int_def by (rule int_result_error)

lemma sub_int_error: "sub_int a b = Inl e \<Longrightarrow> e = SignedOverflow"
  unfolding sub_int_def by (rule int_result_error)

lemma mul_int_error: "mul_int a b = Inl e \<Longrightarrow> e = SignedOverflow"
  unfolding mul_int_def by (rule int_result_error)

lemma sample_index_error: "sample_index row w col channels c = Inl e \<Longrightarrow> e = SignedOverflow"
  unfolding sample_index_def
  by (auto dest!: bnd_error dest: add_int_error mul_int_error)

lemma get_grey_error: "get_grey grey w h px py = Inl e \<Longrightarrow> e \<noteq> InvalidArgument"
  unfolding get_grey_def Let_def
  by (auto dest!: bnd_error dest: rd_error add_int_error sub_int_error mul_int_error)

lemma laplacian_body_error: "laplacian_body grey w h y x output = Inl e \<Longrightarrow> e \<noteq> InvalidArgument"
  unfolding laplacian_body_def Let_def
  by (auto dest!: bnd_error
       dest: get_grey_error wr_error add_int_error sub_int_error mul_int_error)

lemma laplacian_grey_body_error: "laplacian_grey_body src i grey = Inl e \<Longrightarrow> e \<noteq> InvalidArgument"
  unfolding laplacian_grey_body_def Let_def
  by (auto dest!: bnd_error dest: rd_error wr_error)

lemma laplacian_loops_error:
  assumes "for_range 0 h (\<lambda>y. for_range 0 w (\<lambda>x. laplacian_body grey w h y x)) t0 = Inl e"
  shows "e \<noteq> InvalidArgument"
proof (rule for_range_error_kind[where E = "\<lambda>e. e \<noteq> InvalidArgument", OF _ assms])
  fix y :: int and t :: "byte list" and e'
  assume "for_range 0 w (\<lambda>x. laplacian_body grey w h y x) t = Inl e'"
  then show "e' \<noteq> InvalidArgument"
    by (rule for_range_error_kind[where E = "\<lambda>e. e \<noteq> InvalidArgument", rotated])
       (rule laplacian_body_error)
qed

lemma apply_laplacian_rgb_error:
  assumes "length B mod 3 = 0"
  shows "apply_laplacian_rgb B width height \<noteq> Inl InvalidArgument"
proof
  assume a: "apply_laplacian_rgb B width height = Inl InvalidArgument"
  let ?w = "sint width" and ?h = "sint height"
  show False
  proof (cases "mul_int ?w ?h")
    case (Inl e)
    with a assms have "e = InvalidArgument"
      by (simp add: apply_laplacian_rgb_def Let_def)
    with mul_int_error[OF Inl] show False by simp
  next
    case (Inr wh)
    show False
    proof (cases "wh < 0")
      case True
      with a assms Inr show False
        by (simp add: apply_laplacian_rgb_def Let_def)
    next
      case False
      let ?g = "for_range 0 wh (laplacian_grey_body B) (replicate (nat wh) 0)"
      from a assms Inr False have "bnd ?g (\<lambda>grey. for_range 0 ?h
          (\<lambda>y. for_range 0 ?w (\<lambda>x. laplacian_body grey ?w ?h y x))
          (replicate (nat wh) 0)) = Inl InvalidArgument"
        by (simp add: apply_laplacian_rgb_def Let_def)
      then consider "?g = Inl InvalidArgument"
        | grey where "for_range 0 ?h
          (\<lambda>y. for_range 0 ?w (\<lambda>x. laplacian_body grey ?w ?h y x))
          (replicate (nat wh) 0) = Inl InvalidArgument"
        by (auto dest!: bnd_error)
      then show False
      proof cases
        case 1
        have "InvalidArgument \<noteq> InvalidArgument"
          by (rule for_range_error_kind[where E = "\<lambda>e. e \<noteq> InvalidArgument", OF _ 1])
             (rule laplacian_grey_body_error)
        then show False by simp
      next
        case 2
        from laplacian_loops_error[OF 2] show False by simp
      qed
    qed
  qed
qed

lemma gaussian_h_body_error:
  assumes "gaussian_h_body ops kern radius src w channels y x c temp = Inl e"
  shows "e = SignedOverflow \<or> e = OutOfBounds"
proof -
  from assms consider
    "for_range (- radius) (radius + 1)
            (\<lambda>k sum.
               bnd (add_int x k) (\<lambda>xk.
               bnd (sub_int w 1) (\<lambda>w1.
                 let sx = clamp_int xk 0 w1
                 in bnd (add_int k radius) (\<lambda>ki.
                    bnd (rd kern ki) (\<lambda>kv.
                    bnd (sample_index y w sx channels c) (\<lambda>idx.
                    bnd (rd src idx) (\<lambda>sv.
                      Inr (fp_add ops sum (fp_mul ops kv (fp_of_int ops (uint sv)))))))))))
            (fp_of_int ops 0) = Inl e"
    | "e = SignedOverflow \<or> e = OutOfBounds"
    unfolding gaussian_h_body_def
    by (auto dest!: bnd_error dest: wr_error sample_index_error)
  then show ?thesis
  proof cases
    case 1
    then show ?thesis
      by (rule for_range_error_kind[where E = "\<lambda>e. e = SignedOverflow \<or> e = OutOfBounds", rotated])
         (auto simp: Let_def dest!: bnd_error
            dest: rd_error add_int_error sub_int_error sample_index_error)
  next
    case 2
    then show ?thesis .
  qed
qed

lemma gaussian_v_body_error:
  assumes "gaussian_v_body ops kern radius temp w h channels y x c output = Inl e"
  shows "e = SignedOverflow \<or> e = OutOfBounds"
proof -
  from assms consider
    "for_range (- radius) (radius + 1)
            (\<lambda>k sum.
               bnd (add_int y k) (\<lambda>yk.
               bnd (sub_int h 1) (\<lambda>h1.
                 let sy = clamp_int yk 0 h1
                 in bnd (add_int k radius) (\<lambda>ki.
                    bnd (rd kern ki) (\<lambda>kv.
                    bnd (sample_index sy w x channels c) (\<lambda>idx.
                    bnd (rd temp idx) (\<lambda>sv.
                      Inr (fp_add ops sum (fp_mul ops kv (fp_of_int ops (uint sv)))))))))))
            (fp_of_int ops 0) = Inl e"
    | "e = SignedOverflow \<or> e = OutOfBounds"
    unfolding gaussian_v_body_def
    by (auto dest!: bnd_error dest: wr_error sample_index_error)
  then show ?thesis
  proof cases
    case 1
    then show ?thesis
      by (rule for_range_error_kind[where E = "\<lambda>e. e = SignedOverflow \<or> e = OutOfBounds", rotated])
         (auto simp: Let_def dest!: bnd_error
            dest: rd_error add_int_error sub_int_error sample_index_error)
  next
    case 2
    then show ?thesis .
  qed
qed

lemma nest3_error_kind:
  fixes body :: "int \<Rightarrow> int \<Rightarrow> int \<Rightarrow> 's \<Rightarrow> error + 's"
  assumes "\<And>y x c t e. body y x c t = Inl e \<Longrightarrow> E e"
    and "for_range 0 h (\<lambda>y. for_range 0 w (\<lambda>x. for_range 0 n (\<lambda>c. body y x c))) s = Inl e"
  shows "E e"
proof (rule for_range_error_kind[where E = E, OF _ assms(2)])
  fix y :: int and t :: 's and e'
  assume "for_range 0 w (\<lambda>x. for_range 0 n (\<lambda>c. body y x c)) t = Inl e'"
  then show "E e'"
  proof (rule for_range_error_kind[where E = E, rotated])
    fix x :: int and u :: 's and e''
    assume "for_range 0 n (\<lambda>c. body y x c) u = Inl e''"
    then show "E e''"
      by (rule for_range_error_kind[where E = E, rotated]) (rule assms(1))
  qed
qed

lemma generate_error_kind:
  "generate_gaussian_kernel ops sigma = Inl e \<Longrightarrow> e = FloatCastOverflow \<or> e = SignedOverflow"
  using generate_result_cases[of ops sigma] by auto


lemma apply_gaussian_rgb_error:
  assumes "length B mod 3 = 0"
  shows "apply_gaussian_rgb ops B width height strength \<noteq> Inl InvalidArgument"
proof
  assume a: "apply_gaussian_rgb ops B width height strength = Inl InvalidArgument"
  let ?gen = "generate_gaussian_kernel ops (blur_sigma ops strength)"
  let ?w = "sint width" and ?h = "sint height"
  show False
  proof (cases ?gen)
    case (Inl e)
    with a assms have "e = InvalidArgument"
      by (simp add: apply_gaussian_rgb_def Let_def)
    with generate_error_kind[OF Inl] show False by simp
  next
    case (Inr p)
    obtain kern radius where p: "p = (kern, radius)" by (cases p)
    let ?hp = "for_range 0 ?h (\<lambda>y. for_range 0 ?w (\<lambda>x. for_range 0 3
                    (\<lambda>c. gaussian_h_body ops kern radius B ?w 3 y x c)))
                  (replicate (length B) 0)"
    from a assms Inr p have b: "bnd ?hp (\<lambda>temp.
                for_range 0 ?h (\<lambda>y. for_range 0 ?w (\<lambda>x. for_range 0 3
                    (\<lambda>c. gaussian_v_body ops kern radius temp ?w ?h 3 y x c)))
                  (replicate (length B) 0)) = Inl InvalidArgument"
      by (simp add: apply_gaussian_rgb_def Let_def)
    then consider "?hp = Inl InvalidArgument"
      | temp where "for_range 0 ?h (\<lambda>y. for_range 0 ?w (\<lambda>x. for_range 0 3
                    (\<lambda>c. gaussian_v_body ops kern radius temp ?w ?h 3 y x c)))
                  (replicate (length B) 0) = Inl InvalidArgument"
      by (auto dest!: bnd_error)
    then show False
    proof cases
      case 1
      have "InvalidArgument = SignedOverflow \<or> InvalidArgument = OutOfBounds"
        by (rule nest3_error_kind[where E = "\<lambda>e. e = SignedOverflow \<or> e = OutOfBounds", OF _ 1])
           (rule gaussian_h_body_error)
      then show False by simp
    next
      case 2
      have "InvalidArgument = SignedOverflow \<or> InvalidArgument = OutOfBounds"
        by (rule nest3_error_kind[where E = "\<lambda>e. e = SignedOverflow \<or> e = OutOfBounds", OF _ 2])
           (rule gaussian_v_body_error)
      then show False by simp
    qed
  qed
qed

section \<open>The size of a returned buffer\<close>

text \<open>
  Every store of the loops is a checked write into a buffer allocated before the
  loop: a loop that finishes leaves the length of its buffer as it was.
\<close>

lemma laplacian_body_length:
  "laplacian_body grey w h y x output = Inr t \<Longrightarrow> length t = length output"
  unfolding laplacian_body_def Let_def
  by (auto dest!: bnd_success dest: wr_length)

lemma gaussian_h_body_length:
  "gaussian_h_body ops kern radius src w channels y x c temp = Inr t \<Longrightarrow> length t = length temp"
  unfolding gaussian_h_body_def
  by (auto dest!: bnd_success dest: wr_length)

lemma gaussian_v_body_length:
  "gaussian_v_body ops kern radius temp w h channels y x c output = Inr t \<Longrightarrow>
     length t = length output"
  unfolding gaussian_v_body_def
  by (auto dest!: bnd_success dest: wr_length)

lemma nest2_preserves:
  fixes body :: "int \<Rightarrow> int \<Rightarrow> 's \<Rightarrow> error + 's"
  assumes "P s"
    and "for_range 0 h (\<lambda>y. for_range 0 w (\<lambda>x. body y x)) s = Inr s'"
    and "\<And>y x t t'. P t \<Longrightarrow> body y x t = Inr t' \<Longrightarrow> P t'"
  shows "P s'"
proof (rule for_range_preserves[where P = P, OF assms(1,2)])
  fix y :: int and t t' :: 's
  assume "P t" "for_range 0 w (\<lambda>x. body y x) t = Inr t'"
  then show "P t'"
    by (rule for_range_preserves[where P = P]) (rule assms(3))
qed

lemma nest3_preserves:
  fixes body :: "int \<Rightarrow> int \<Rightarrow> int \<Rightarrow> 's \<Rightarrow> error + 's"
  assumes "P s"
    and "for_range 0 h (\<lambda>y. for_range 0 w (\<lambda>x. for_range 0 n (\<lambda>c. body y x c))) s = Inr s'"
    and "\<And>y x c t t'. P t \<Longrightarrow> body y x c t = Inr t' \<Longrightarrow> P t'"
  shows "P s'"
proof (rule nest2_preserves[where P = P, OF assms(1,2)])
  fix y x :: int and t t' :: 's
  assume "P t" "for_range 0 n (\<lambda>c. body y x c) t = Inr t'"
  then show "P t'"
    by (rule for_range_preserves[where P = P]) (rule assms(3))
qed

lemma apply_gaussian_rgb_length:
  assumes "apply_gaussian_rgb ops B width height strength = Inr out"
  shows "length out = length B"
proof -
  let ?w = "sint width" and ?h = "sint height"
  from assms have m: "length B mod 3 = 0"
    by (auto simp: apply_gaussian_rgb_def split: if_splits)
  with assms have "bnd (generate_gaussian_kernel ops (blur_sigma ops strength))
      (\<lambda>(kernel, radius).
         bnd (for_range 0 ?h (\<lambda>y. for_range 0 ?w (\<lambda>x. for_range 0 3
                    (\<lambda>c. gaussian_h_body ops kernel radius B ?w 3 y x c)))
                  (replicate (length B) 0))
             (\<lambda>temp.
                for_range 0 ?h (\<lambda>y. for_range 0 ?w (\<lambda>x. for_range 0 3
                    (\<lambda>c. gaussian_v_body ops kernel radius temp ?w ?h 3 y x c)))
                  (replicate (length B) 0))) = Inr out"
    by (simp add: apply_gaussian_rgb_def Let_def)
  from bnd_success[OF this] obtain kern radius where
    "bnd (for_range 0 ?h (\<lambda>y. for_range 0 ?w (\<lambda>x. for_range 0 3
                    (\<lambda>c. gaussian_h_body ops kern radius B ?w 3 y x c)))
                  (replicate (length B) 0))
             (\<lambda>temp.
                for_range 0 ?h (\<lambda>y. for_range 0 ?w (\<lambda>x. for_range 0 3
                    (\<lambda>c. gaussian_v_body ops kern radius temp ?w ?h 3 y x c)))
                  (replicate (length B) 0)) = Inr out"
    by auto
  from bnd_success[OF this] obtain temp where
    "for_range 0 ?h (\<lambda>y. for_range 0 ?w (\<lambda>x. for_range 0 3
        (\<lambda>c. gaussian_v_body ops kern radius temp ?w ?h 3 y x c)))
        (replicate (length B) 0) = Inr out"
    by blast
  then show ?thesis
    by (rule nest3_preserves[where P = "\<lambda>t. length t = length B", rotated])
       (simp_all add: gaussian_v_body_length)
qed

lemma apply_laplacian_rgb_length:
  assumes "apply_laplacian_rgb B width height = Inr out"
  shows "0 \<le> sint width * sint height" "sint width * sint height \<le> INT_MAX"
    "length out = nat (sint width * sint height)"
proof -
  let ?w = "sint width" and ?h = "sint height"
  from assms have m: "length B mod 3 = 0"
    by (auto simp: apply_laplacian_rgb_def split: if_splits)
  with assms have "bnd (mul_int ?w ?h) (\<lambda>wh.
       if wh < 0 then Inl LengthError
       else bnd (for_range 0 wh (laplacian_grey_body B) (replicate (nat wh) 0))
              (\<lambda>grey. for_range 0 ?h (\<lambda>y. for_range 0 ?w (\<lambda>x. laplacian_body grey ?w ?h y x))
                 (replicate (nat wh) 0))) = Inr out"
    unfolding apply_laplacian_rgb_def Let_def by simp
  from bnd_success[OF this] obtain wh where wh: "mul_int ?w ?h = Inr wh"
    and rest: "(if wh < 0 then Inl LengthError
       else bnd (for_range 0 wh (laplacian_grey_body B) (replicate (nat wh) 0))
              (\<lambda>grey. for_range 0 ?h (\<lambda>y. for_range 0 ?w (\<lambda>x. laplacian_body grey ?w ?h y x))
                 (replicate (nat wh) 0))) = Inr out"
    by blast
  from mul_int_success[OF wh] have p: "wh = ?w * ?h" "?w * ?h \<le> INT_MAX" by simp_all
  from rest have nn: "\<not> wh < 0" by (auto split: if_splits)
  with rest have "bnd (for_range 0 wh (laplacian_grey_body B) (replicate (nat wh) 0))
              (\<lambda>grey. for_range 0 ?h (\<lambda>y. for_range 0 ?w (\<lambda>x. laplacian_body grey ?w ?h y x))
                 (replicate (nat wh) 0)) = Inr out"
    by simp
  from bnd_success[OF this] obtain grey where
    "for_range 0 ?h (\<lambda>y. for_range 0 ?w (\<lambda>x. laplacian_body grey ?w ?h y x))
       (replicate (nat wh) 0) = Inr out"
    by blast
  then have "length out = nat wh"
    by (rule nest2_preserves[where P = "\<lambda>t. length t = nat wh", rotated])
       (simp_all add: laplacian_body_length)
  with p nn show "0 \<le> ?w * ?h" "?w * ?h \<le> INT_MAX" "length out = nat (?w * ?h)"
    by simp_all
qed

section \<open>The outcomes of the blur and the pixel count of the Laplacian\<close>

text \<open>
  With consistent dimensions and at most \<open>INT_MAX\<close> samples the blur has three
  outcomes: the two passes over the generated kernel, or one of the two overflows of
  the kernel generator.
\<close>

lemma apply_gaussian_rgb_cases:
  assumes dims: "unat width * unat height * 3 = length B"
    and fit: "int (length B) \<le> INT_MAX"
  shows "(\<exists>kern radius.
            generate_gaussian_kernel ops (blur_sigma ops strength) = Inr (kern, radius) \<and>
            apply_gaussian_rgb ops B width height strength =
              Inr (vertical_pass ops kern radius
                     (horizontal_pass ops kern radius B (uint width) (uint height))
                     (uint width) (uint height))) \<or>
         (generate_gaussian_kernel ops (blur_sigma ops strength) = Inl FloatCastOverflow \<and>
          apply_gaussian_rgb ops B width height strength = Inl FloatCastOverflow) \<or>
         (generate_gaussian_kernel ops (blur_sigma ops strength) = Inl SignedOverflow \<and>
          apply_gaussian_rgb ops B width height strength = Inl SignedOverflow)"
proof -
  have m: "length B mod 3 = 0" using dims[symmetric] by simp
  let ?s = "blur_sigma ops strength"
  from generate_result_cases[of ops ?s]
  consider kern where "generate_gaussian_kernel ops ?s = Inr (kern, max 1 (ceil_3sigma ops ?s))"
      "length kern = nat (2 * max 1 (ceil_3sigma ops ?s) + 1)"
      "max 1 (ceil_3sigma ops ?s) \<le> 46340"
    | "generate_gaussian_kernel ops ?s = Inl FloatCastOverflow"
    | "generate_gaussian_kernel ops ?s = Inl SignedOverflow"
    by blast
  then show ?thesis
  proof cases
    case 1
    have "apply_gaussian_rgb ops B width height strength =
        Inr (vertical_pass ops kern (max 1 (ceil_3sigma ops ?s))
               (horizontal_pass ops kern (max 1 (ceil_3sigma ops ?s)) B (uint width) (uint height))
               (uint width) (uint height))"
      by (rule apply_gaussian_rgb_eq[OF dims fit 1(1) _ 1(3) 1(2)]) simp
    with 1(1) show ?thesis by blast
  next
    case 2
    with m show ?thesis by (simp add: apply_gaussian_rgb_def Let_def)
  next
    case 3
    with m show ?thesis by (simp add: apply_gaussian_rgb_def Let_def)
  qed
qed

lemma length_vertical_pass:
  "length (vertical_pass ops kern radius src (uint (width :: uint32)) (uint (height :: uint32))) =
     unat width * unat height * 3"
proof -
  have "nat (uint width * uint height * 3) = nat (uint width * uint height) * 3"
    by (simp add: nat_mult_distrib)
  then show ?thesis
    by (simp only: vertical_pass_def length_map length_upt pixel_count_nat)
qed

text \<open>
  The pixel count the Laplacian allocates is \<open>sint width * sint height\<close>. When it
  is not negative it is the number of pixels \<open>width * height\<close>, for every buffer of
  three bytes per pixel that a vector can hold: two words from \<open>2^31\<close> on, whose
  signed readings have a positive product, describe more than \<open>2^62\<close> pixels.
\<close>

lemma signed_product_is_pixel_count:
  fixes width height :: uint32
  assumes nn: "0 \<le> sint width * sint height"
    and vec: "unat width * unat height * 3 \<le> vector_max_size"
  shows "nat (sint width * sint height) = unat width * unat height"
proof -
  have big: "2147483648 \<le> unat a" if "INT_MAX < uint a" for a :: uint32
    using that by (simp add: INT_MAX_def unat_eq_nat_uint del: nat_uint_eq)
  consider (small) "uint width \<le> INT_MAX" "uint height \<le> INT_MAX"
    | (wide) "INT_MAX < uint width" "uint height \<le> INT_MAX"
    | (tall) "uint width \<le> INT_MAX" "INT_MAX < uint height"
    | (both) "INT_MAX < uint width" "INT_MAX < uint height"
    by linarith
  then show ?thesis
  proof cases
    case small
    then show ?thesis by (simp add: sint_small pixel_count_nat)
  next
    case wide
    have w: "sint width < 0" by (rule sint_large_negative[OF wide(1)])
    have h: "sint height = uint height" by (rule sint_small[OF wide(2)])
    have "\<not> 0 < uint height"
    proof
      assume "0 < uint height"
      with w h have "sint width * sint height < 0" by (simp add: mult_neg_pos)
      with nn show False by simp
    qed
    then have "uint height = 0" using uint_ge_0[of height] by linarith
    then have "height = 0" by (simp add: uint_0_iff)
    then show ?thesis by simp
  next
    case tall
    have h: "sint height < 0" by (rule sint_large_negative[OF tall(2)])
    have w: "sint width = uint width" by (rule sint_small[OF tall(1)])
    have "\<not> 0 < uint width"
    proof
      assume "0 < uint width"
      with w h have "sint width * sint height < 0" by (simp add: mult_pos_neg)
      with nn show False by simp
    qed
    then have "uint width = 0" using uint_ge_0[of width] by linarith
    then have "width = 0" by (simp add: uint_0_iff)
    then show ?thesis by simp
  next
    case both
    have "2147483648 * 2147483648 \<le> unat width * unat height"
      by (intro mult_mono big both) simp_all
    with vec have False by (simp add: vector_max_size_def)
    then show ?thesis ..
  qed
qed

section \<open>The exact arithmetic at the strengths evaluated\<close>

lemma exact_sigma_200000: "blur_sigma exact_ops 200000 = 20000"
  by (simp add: blur_sigma_def exact_ops_def)

lemma exact_ceil_20000: "ceil_3sigma exact_ops 20000 = 60000"
  by (simp add: ceil_3sigma_def exact_ops_def)

lemma exact_sigma_max: "blur_sigma exact_ops 4294967295 = 858993459 / 2"
  by (simp add: blur_sigma_def exact_ops_def)

lemma exact_ceil_max: "ceil_3sigma exact_ops (858993459 / 2) = 1288490189"
proof -
  have "\<lceil>2576980377 / 2 :: real\<rceil> = 1288490189"
    by (simp add: ceiling_eq_iff)
  then show ?thesis
    by (simp add: ceil_3sigma_def exact_ops_def)
qed

lemma exact_sigma_10: "blur_sigma exact_ops 10 = 1"
  by (simp add: blur_sigma_def exact_ops_def)

lemma exact_ceil_1: "ceil_3sigma exact_ops 1 = 3"
  by (simp add: ceil_3sigma_def exact_ops_def)

section \<open>Bounds of the spatial filters\<close>

lemma clamp_int_range:
  "1 \<le> n \<Longrightarrow> 0 \<le> clamp_int v 0 (n - 1) \<and> clamp_int v 0 (n - 1) \<le> n - 1"
  by (simp add: clamp_int_def)

lemma get_grey_single:
  assumes "length grey = 1"
  shows "get_grey grey 1 1 px py = Inr (uint (grey ! 0))"
proof -
  have "get_grey grey 1 1 px py = Inr (neighbour grey 1 1 px py)"
    by (rule get_grey_neighbour) (simp_all add: assms INT_MAX_def)
  then show ?thesis by (simp add: neighbour_def edge_clamp_def)
qed

lemma gaussian_h_body_single:
  assumes c: "0 \<le> c" "c < 3" and r: "0 \<le> radius" "radius \<le> 46340"
    and lk: "length kern = nat (2 * radius + 1)"
    and ls: "length src = 3" and lt: "length temp = 3"
  shows "gaussian_h_body ops kern radius src 1 3 0 0 c temp =
           Inr (temp[nat c := to_sample ops (convolve ops kern radius (\<lambda>k. src ! nat c))])"
proof -
  have "gaussian_h_body ops kern radius src 1 3 0 0 c temp =
     Inr (temp[nat ((0 * 1 + 0) * 3 + c) :=
            to_sample ops (convolve ops kern radius
              (\<lambda>k. src ! nat ((0 * 1 + edge_clamp (0 + k) 1) * 3 + c)))])"
    by (rule gaussian_h_body_stores[where h = 1])
       (simp_all add: c r lk ls lt INT_MAX_def)
  then show ?thesis by (simp add: edge_clamp_def)
qed

lemma gaussian_v_body_single:
  assumes c: "0 \<le> c" "c < 3" and r: "0 \<le> radius" "radius \<le> 46340"
    and lk: "length kern = nat (2 * radius + 1)"
    and ls: "length temp = 3" and lt: "length output = 3"
  shows "gaussian_v_body ops kern radius temp 1 1 3 0 0 c output =
           Inr (output[nat c := to_sample ops (convolve ops kern radius (\<lambda>k. temp ! nat c))])"
proof -
  have "gaussian_v_body ops kern radius temp 1 1 3 0 0 c output =
     Inr (output[nat ((0 * 1 + 0) * 3 + c) :=
            to_sample ops (convolve ops kern radius
              (\<lambda>k. temp ! nat ((edge_clamp (0 + k) 1 * 1 + 0) * 3 + c)))])"
    by (rule gaussian_v_body_stores)
       (simp_all add: c r lk ls lt INT_MAX_def)
  then show ?thesis by (simp add: edge_clamp_def)
qed

text \<open>
  Where the buffer has at most \<open>INT_MAX\<close> samples the two filters stay inside their
  vectors. For an image of at least one pixel with \<open>width * height * 3 = length\<close>, the
  Laplacian returns a buffer; the blur never ends in an out-of-bounds access, and when
  it ends in an error at all, that error is the kernel generator's, raised before the
  first access to the image; every clamped coordinate lies in \<open>[0, width - 1]\<close> or
  \<open>[0, height - 1]\<close>. On a 1 x 1 image every clamped coordinate is 0: each
  neighbour lookup of the Laplacian returns the one grey value, and every tap of
  either innermost blur loop reads the pixel's own sample of the channel.
\<close>

lemma spatial_filters_in_bounds_within_int:
  assumes pos: "1 \<le> unat width" "1 \<le> unat height"
    and dims: "unat width * unat height * 3 = length B"
    and fit: "int (length B) \<le> INT_MAX"
  shows "(\<exists>out. apply_laplacian_rgb B width height = Inr out) \<and>
         apply_gaussian_rgb ops B width height strength \<noteq> Inl OutOfBounds \<and>
         (\<forall>e. apply_gaussian_rgb ops B width height strength = Inl e \<longrightarrow>
              generate_gaussian_kernel ops (blur_sigma ops strength) = Inl e) \<and>
         (\<forall>v. 0 \<le> clamp_int v 0 (sint width - 1) \<and>
              clamp_int v 0 (sint width - 1) \<le> uint width - 1) \<and>
         (\<forall>v. 0 \<le> clamp_int v 0 (sint height - 1) \<and>
              clamp_int v 0 (sint height - 1) \<le> uint height - 1) \<and>
         (width = 1 \<and> height = 1 \<longrightarrow>
            (\<forall>v. clamp_int v 0 (sint width - 1) = 0 \<and> clamp_int v 0 (sint height - 1) = 0) \<and>
            (\<forall>grey px py. length grey = 1 \<longrightarrow> get_grey grey 1 1 px py = Inr (uint (grey ! 0))) \<and>
            (\<forall>kern radius src temp c.
               0 \<le> c \<and> c < 3 \<and> 0 \<le> radius \<and> radius \<le> 46340 \<and>
               length kern = nat (2 * radius + 1) \<and> length src = 3 \<and> length temp = 3 \<longrightarrow>
               gaussian_h_body ops kern radius src 1 3 0 0 c temp =
                 Inr (temp[nat c := to_sample ops (convolve ops kern radius (\<lambda>k. src ! nat c))]) \<and>
               gaussian_v_body ops kern radius src 1 1 3 0 0 c temp =
                 Inr (temp[nat c := to_sample ops (convolve ops kern radius (\<lambda>k. src ! nat c))])))"
proof -
  have ne: "unat width * unat height \<noteq> 0" using pos by simp
  have "3 * (uint width * uint height) = int (length B)"
    using dims[symmetric] by (simp add: mult.commute)
  moreover have "0 \<le> uint width * uint height" by simp
  ultimately have f1: "uint width * uint height \<le> INT_MAX"
    using fit by linarith
  note d = nonempty_image_dimensions[OF ne f1]
  have lap: "\<exists>out. apply_laplacian_rgb B width height = Inr out"
    using apply_laplacian_rgb_eq[OF dims f1] by blast
  note cases = apply_gaussian_rgb_cases[OF dims fit, of ops strength]
  have oob: "apply_gaussian_rgb ops B width height strength \<noteq> Inl OutOfBounds"
    using cases by auto
  have gen: "\<forall>e. apply_gaussian_rgb ops B width height strength = Inl e \<longrightarrow>
              generate_gaussian_kernel ops (blur_sigma ops strength) = Inl e"
    using cases by auto
  have cw: "\<forall>v. 0 \<le> clamp_int v 0 (sint width - 1) \<and>
              clamp_int v 0 (sint width - 1) \<le> uint width - 1"
    unfolding d(3) using clamp_int_range[OF d(1)] by blast
  have ch: "\<forall>v. 0 \<le> clamp_int v 0 (sint height - 1) \<and>
              clamp_int v 0 (sint height - 1) \<le> uint height - 1"
    unfolding d(4) using clamp_int_range[OF d(2)] by blast
  have one: "width = 1 \<and> height = 1 \<longrightarrow>
            (\<forall>v. clamp_int v 0 (sint width - 1) = 0 \<and> clamp_int v 0 (sint height - 1) = 0)"
    by (simp add: clamp_int_def)
  from lap oob gen cw ch one show ?thesis
    using get_grey_single gaussian_h_body_single gaussian_v_body_single by blast
qed

text \<open>The lemma at a one-pixel image, with the kernel of strength 10.\<close>

lemma spatial_filters_in_bounds_at_one_pixel:
  "(\<exists>out. apply_laplacian_rgb [10, 20, 30] 1 1 = Inr out) \<and>
   (\<exists>out. apply_gaussian_rgb exact_ops [10, 20, 30] 1 1 10 = Inr out) \<and>
   get_grey [7] 1 1 (- 1) 1 = Inr 7"
proof -
  have p: "1 \<le> unat (1 :: uint32)" by simp
  have d: "unat (1 :: uint32) * unat (1 :: uint32) * 3 = length [10, 20, 30 :: byte]" by simp
  have f: "int (length [10, 20, 30 :: byte]) \<le> INT_MAX" by (simp add: INT_MAX_def)
  note t = spatial_filters_in_bounds_within_int[OF p p d f, of exact_ops 10]
  have "\<exists>kern. generate_gaussian_kernel exact_ops (blur_sigma exact_ops 10) =
      Inr (kern, max 1 (ceil_3sigma exact_ops (blur_sigma exact_ops 10))) \<and>
      length kern = nat (2 * max 1 (ceil_3sigma exact_ops (blur_sigma exact_ops 10)) + 1)"
    by (rule generate_ok) (simp_all add: exact_sigma_10 exact_ceil_1 INT_MIN_def)
  then have g: "\<exists>r. generate_gaussian_kernel exact_ops (blur_sigma exact_ops 10) = Inr r"
    by blast
  have b: "\<exists>out. apply_gaussian_rgb exact_ops [10, 20, 30] 1 1 10 = Inr out"
  proof (cases "apply_gaussian_rgb exact_ops [10, 20, 30] 1 1 10")
    case (Inl e)
    with t have "generate_gaussian_kernel exact_ops (blur_sigma exact_ops 10) = Inl e" by blast
    with g show ?thesis by simp
  next
    case (Inr out)
    then show ?thesis by blast
  qed
  have s: "length [7 :: byte] = 1" by simp
  from t have "get_grey [7] 1 1 (- 1) 1 = Inr (uint ([7 :: byte] ! 0))"
    using s by blast
  then have "get_grey [7] 1 1 (- 1) 1 = Inr 7" by simp
  with t b show ?thesis by blast
qed

text \<open>
  Beyond \<open>INT_MAX\<close> samples the index expressions of the blur leave the range of
  \<open>int\<close>. In a 715827883 x 1 image, of 2147483649 samples, the sample of
  channel 2 of the last pixel has the index
  \<open>(0 * w + 715827882) * 3 + 2 = 2147483648\<close>. With a kernel of radius 3 the
  horizontal pass reaches it as the last tap of pixel 715827879: every tap before is
  in range and inside the buffers, and this one overflows.
\<close>

lemma last_sample_index_overflow:
  "sample_index 0 715827883 715827882 3 2 = Inl SignedOverflow"
  by (simp add: sample_index_def mul_int_def add_int_def int_result_def INT_MIN_def INT_MAX_def)

lemma row_tap_ok:
  fixes x k c :: int
  assumes x: "0 \<le> x" "x < 715827883" and c: "0 \<le> c" "c < 3" and k: "- 3 \<le> k" "k < 3 + 1"
    and safe: "x + k < 715827882 \<or> c < 2"
    and lk: "length kern = 7" and ls: "length src = 2147483649"
  shows "\<exists>v. bnd (add_int x k) (\<lambda>xk.
               bnd (sub_int 715827883 1) (\<lambda>w1.
                 let sx = clamp_int xk 0 w1
                 in bnd (add_int k 3) (\<lambda>ki.
                    bnd (rd kern ki) (\<lambda>kv.
                    bnd (sample_index 0 715827883 sx 3 c) (\<lambda>idx.
                    bnd (rd src idx) (\<lambda>sv. Inr (f kv sv))))))) = Inr v"
  using assms
  by (auto simp: add_int_def sub_int_def mul_int_def int_result_def sample_index_def
      clamp_int_def rd_def Let_def INT_MIN_def INT_MAX_def)

lemma row_tap_overflow:
  fixes x k :: int
  assumes x: "0 \<le> x" "x < 715827883" and k: "- 3 \<le> k" "k < 3 + 1"
    and edge: "715827882 \<le> x + k"
    and lk: "length kern = 7"
  shows "bnd (add_int x k) (\<lambda>xk.
               bnd (sub_int 715827883 1) (\<lambda>w1.
                 let sx = clamp_int xk 0 w1
                 in bnd (add_int k 3) (\<lambda>ki.
                    bnd (rd kern ki) (\<lambda>kv.
                    bnd (sample_index 0 715827883 sx 3 2) (\<lambda>idx.
                    bnd (rd src idx) (\<lambda>sv. Inr (f kv sv))))))) = Inl SignedOverflow"
  using assms
  by (auto simp: add_int_def sub_int_def mul_int_def int_result_def sample_index_def
      clamp_int_def rd_def Let_def INT_MIN_def INT_MAX_def)


lemma row_body_ok:
  fixes x c :: int
  assumes x: "0 \<le> x" "x < 715827883" and c: "0 \<le> c" "c < 3"
    and safe: "x + 3 < 715827882 \<or> c < 2"
    and lk: "length kern = 7" and ls: "length src = 2147483649"
    and lt: "length temp = 2147483649"
  shows "\<exists>t'. gaussian_h_body ops kern 3 src 715827883 3 0 x c temp = Inr t' \<and>
           length t' = 2147483649"
proof -
  have "\<exists>v. for_range (- 3) (3 + 1)
            (\<lambda>k sum.
               bnd (add_int x k) (\<lambda>xk.
               bnd (sub_int 715827883 1) (\<lambda>w1.
                 let sx = clamp_int xk 0 w1
                 in bnd (add_int k 3) (\<lambda>ki.
                    bnd (rd kern ki) (\<lambda>kv.
                    bnd (sample_index 0 715827883 sx 3 c) (\<lambda>idx.
                    bnd (rd src idx) (\<lambda>sv.
                      Inr (fp_add ops sum (fp_mul ops kv (fp_of_int ops (uint sv)))))))))))
            (fp_of_int ops 0) = Inr v \<and> True"
  proof (rule for_range_inv[where I = "\<lambda>_ _. True"])
    fix k :: int and acc
    assume k: "- 3 \<le> k" "k < 3 + 1"
    from safe k have s: "x + k < 715827882 \<or> c < 2" by linarith
    from row_tap_ok[OF x c k s lk ls,
        of "\<lambda>kv sv. fp_add ops acc (fp_mul ops kv (fp_of_int ops (uint sv)))"]
    show "\<exists>t'. bnd (add_int x k) (\<lambda>xk.
               bnd (sub_int 715827883 1) (\<lambda>w1.
                 let sx = clamp_int xk 0 w1
                 in bnd (add_int k 3) (\<lambda>ki.
                    bnd (rd kern ki) (\<lambda>kv.
                    bnd (sample_index 0 715827883 sx 3 c) (\<lambda>idx.
                    bnd (rd src idx) (\<lambda>sv.
                      Inr (fp_add ops acc (fp_mul ops kv (fp_of_int ops (uint sv)))))))))) = Inr t' \<and>
            True"
      by simp
  qed simp_all
  then obtain v where inner: "for_range (- 3) (3 + 1)
            (\<lambda>k sum.
               bnd (add_int x k) (\<lambda>xk.
               bnd (sub_int 715827883 1) (\<lambda>w1.
                 let sx = clamp_int xk 0 w1
                 in bnd (add_int k 3) (\<lambda>ki.
                    bnd (rd kern ki) (\<lambda>kv.
                    bnd (sample_index 0 715827883 sx 3 c) (\<lambda>idx.
                    bnd (rd src idx) (\<lambda>sv.
                      Inr (fp_add ops sum (fp_mul ops kv (fp_of_int ops (uint sv)))))))))))
            (fp_of_int ops 0) = Inr v"
    by blast
  from x c safe have st: "sample_index 0 715827883 x 3 c = Inr (x * 3 + c)"
    by (auto simp: sample_index_def mul_int_def add_int_def int_result_def INT_MIN_def INT_MAX_def)
  from x c lt have w: "wr temp (x * 3 + c) (to_sample ops v) =
      Inr (temp[nat (x * 3 + c) := to_sample ops v])"
    by (intro wr_in_range) simp_all
  show ?thesis
    unfolding gaussian_h_body_def inner bnd_Inr st w using lt by simp
qed

lemma row_body_overflow:
  assumes lk: "length kern = 7" and ls: "length src = 2147483649"
  shows "gaussian_h_body ops kern 3 src 715827883 3 0 715827879 2 temp = Inl SignedOverflow"
proof -
  have "for_range (- 3) (3 + 1)
            (\<lambda>k sum.
               bnd (add_int 715827879 k) (\<lambda>xk.
               bnd (sub_int 715827883 1) (\<lambda>w1.
                 let sx = clamp_int xk 0 w1
                 in bnd (add_int k 3) (\<lambda>ki.
                    bnd (rd kern ki) (\<lambda>kv.
                    bnd (sample_index 0 715827883 sx 3 2) (\<lambda>idx.
                    bnd (rd src idx) (\<lambda>sv.
                      Inr (fp_add ops sum (fp_mul ops kv (fp_of_int ops (uint sv)))))))))))
            (fp_of_int ops 0) = Inl SignedOverflow"
  proof (rule for_range_first_error[where I = "\<lambda>_ _. True" and m = 3])
    fix k :: int and acc
    assume k: "- 3 \<le> k" "k < 3"
    then have k': "k < 3 + 1" and s: "715827879 + k < 715827882 \<or> (2 :: int) < 2" by simp_all
    from row_tap_ok[OF _ _ _ _ k(1) k' s lk ls,
        of "\<lambda>kv sv. fp_add ops acc (fp_mul ops kv (fp_of_int ops (uint sv)))"]
    show "\<exists>t'. bnd (add_int 715827879 k) (\<lambda>xk.
               bnd (sub_int 715827883 1) (\<lambda>w1.
                 let sx = clamp_int xk 0 w1
                 in bnd (add_int k 3) (\<lambda>ki.
                    bnd (rd kern ki) (\<lambda>kv.
                    bnd (sample_index 0 715827883 sx 3 2) (\<lambda>idx.
                    bnd (rd src idx) (\<lambda>sv.
                      Inr (fp_add ops acc (fp_mul ops kv (fp_of_int ops (uint sv)))))))))) = Inr t' \<and>
            True"
      by simp
  next
    fix acc
    show "bnd (add_int 715827879 3) (\<lambda>xk.
               bnd (sub_int 715827883 1) (\<lambda>w1.
                 let sx = clamp_int xk 0 w1
                 in bnd (add_int 3 3) (\<lambda>ki.
                    bnd (rd kern ki) (\<lambda>kv.
                    bnd (sample_index 0 715827883 sx 3 2) (\<lambda>idx.
                    bnd (rd src idx) (\<lambda>sv.
                      Inr (fp_add ops acc (fp_mul ops kv (fp_of_int ops (uint sv)))))))))) =
          Inl SignedOverflow"
      by (rule row_tap_overflow[OF _ _ _ _ _ lk]) simp_all
  qed simp_all
  then show ?thesis
    unfolding gaussian_h_body_def by simp
qed

lemma row_pixel_ok:
  fixes x :: int
  assumes x: "0 \<le> x" "x < 715827879"
    and lk: "length kern = 7" and ls: "length src = 2147483649"
    and lt: "length temp = 2147483649"
  shows "\<exists>t'. for_range 0 3 (\<lambda>c. gaussian_h_body ops kern 3 src 715827883 3 0 x c) temp = Inr t' \<and>
           length t' = 2147483649"
proof (rule for_range_inv[where I = "\<lambda>_ t. length t = 2147483649"])
  fix c :: int and t :: "byte list"
  assume c: "0 \<le> c" "c < 3" and t: "length t = 2147483649"
  from x have x': "x < 715827883" and s: "x + 3 < 715827882 \<or> c < 2" by simp_all
  from row_body_ok[OF x(1) x' c s lk ls t]
  show "\<exists>t'. gaussian_h_body ops kern 3 src 715827883 3 0 x c t = Inr t' \<and>
      length t' = 2147483649" .
qed (simp_all add: lt)

lemma row_pixel_overflow:
  assumes lk: "length kern = 7" and ls: "length src = 2147483649"
    and lt: "length temp = 2147483649"
  shows "for_range 0 3 (\<lambda>c. gaussian_h_body ops kern 3 src 715827883 3 0 715827879 c) temp =
           Inl SignedOverflow"
proof (rule for_range_first_error[where I = "\<lambda>_ t. length t = 2147483649" and m = 2])
  fix c :: int and t :: "byte list"
  assume c: "0 \<le> c" "c < 2" and t: "length t = 2147483649"
  then have c': "c < 3" and s: "(715827879 :: int) + 3 < 715827882 \<or> c < 2" by simp_all
  from row_body_ok[OF _ _ c(1) c' s lk ls t]
  show "\<exists>t'. gaussian_h_body ops kern 3 src 715827883 3 0 715827879 c t = Inr t' \<and>
      length t' = 2147483649" by simp
next
  fix t :: "byte list"
  show "gaussian_h_body ops kern 3 src 715827883 3 0 715827879 2 t = Inl SignedOverflow"
    by (rule row_body_overflow[OF lk ls])
qed (simp_all add: lt)

lemma row_overflow:
  assumes lk: "length kern = 7" and ls: "length src = 2147483649"
    and lt: "length temp = 2147483649"
  shows "for_range 0 1 (\<lambda>y. for_range 0 715827883 (\<lambda>x. for_range 0 3
            (\<lambda>c. gaussian_h_body ops kern 3 src 715827883 3 y x c))) temp = Inl SignedOverflow"
proof -
  have "for_range 0 715827883 (\<lambda>x. for_range 0 3
            (\<lambda>c. gaussian_h_body ops kern 3 src 715827883 3 0 x c)) temp = Inl SignedOverflow"
  proof (rule for_range_first_error[where I = "\<lambda>_ t. length t = 2147483649"
        and m = 715827879])
    fix x :: int and t :: "byte list"
    assume "0 \<le> x" "x < 715827879" "length t = 2147483649"
    then show "\<exists>t'. for_range 0 3 (\<lambda>c. gaussian_h_body ops kern 3 src 715827883 3 0 x c) t =
        Inr t' \<and> length t' = 2147483649"
      by (rule row_pixel_ok[OF _ _ lk ls])
  next
    fix t :: "byte list"
    assume "length t = 2147483649"
    then show "for_range 0 3 (\<lambda>c. gaussian_h_body ops kern 3 src 715827883 3 0 715827879 c) t =
        Inl SignedOverflow"
      by (rule row_pixel_overflow[OF lk ls])
  qed (simp_all add: lt)
  then show ?thesis
    by (intro for_range_step_Inl[of 0 1 "\<lambda>y. for_range 0 715827883 (\<lambda>x. for_range 0 3
            (\<lambda>c. gaussian_h_body ops kern 3 src 715827883 3 y x c))" temp SignedOverflow])
       simp_all
qed

text \<open>Strength 10 gives sigma 1 and the radius 3, in exact arithmetic as in binary64.\<close>

lemma blur_index_overflow:
  "apply_gaussian_rgb exact_ops (replicate 2147483649 0) 715827883 1 10 = Inl SignedOverflow"
proof -
  have "\<exists>kern. generate_gaussian_kernel exact_ops (blur_sigma exact_ops 10) =
      Inr (kern, max 1 (ceil_3sigma exact_ops (blur_sigma exact_ops 10))) \<and>
      length kern = nat (2 * max 1 (ceil_3sigma exact_ops (blur_sigma exact_ops 10)) + 1)"
    by (rule generate_ok) (simp_all add: exact_sigma_10 exact_ceil_1 INT_MIN_def)
  then obtain kern where
    k: "generate_gaussian_kernel exact_ops (blur_sigma exact_ops 10) = Inr (kern, 3)"
    and lk: "length kern = 7"
    by (auto simp: exact_sigma_10 exact_ceil_1)
  have h: "for_range 0 1 (\<lambda>y. for_range 0 715827883 (\<lambda>x. for_range 0 3
            (\<lambda>c. gaussian_h_body exact_ops kern 3 (replicate 2147483649 0) 715827883 3 y x c)))
          (replicate 2147483649 0) = Inl SignedOverflow"
    by (rule row_overflow[OF lk]) simp_all
  show ?thesis
    unfolding apply_gaussian_rgb_def Let_def
    by (simp add: k h)
qed

text \<open>
  Claim C9 promises that the two filters never read outside their buffers whenever
  \<open>width >= 1\<close>, \<open>height >= 1\<close> and \<open>width * height * 3 = length\<close>. The blur
  of a 715827883 x 1 image stops in the signed overflow of a sample index; with
  two's-complement wrap-around that index is \<open>-2147483648\<close>, before the start of
  the buffer. For a 65536 x 65536 image the pixel count \<open>w * h\<close> of the Laplacian is
  \<open>2^32\<close>, above \<open>INT_MAX\<close>: the Laplacian stops in the signed overflow. With
  wrap-around the product is 0; the greyscale and output buffers are then empty, and
  the loops, which still run over 65536 rows and columns, read element 0 of the empty
  greyscale buffer in their first neighbour lookup.
\<close>

theorem spatial_filters_index_overflow:
  "apply_gaussian_rgb exact_ops (replicate 2147483649 0) 715827883 1 10 = Inl SignedOverflow \<and>
   sint (2147483646 + 2 :: uint32) = - 2147483648 \<and>
   rd (replicate 2147483649 (0 :: byte)) (- 2147483648) = Inl OutOfBounds \<and>
   apply_laplacian_rgb (replicate 12884901888 0) 65536 65536 = Inl SignedOverflow \<and>
   sint (65536 * 65536 :: uint32) = 0 \<and>
   for_range 0 65536 (\<lambda>y. for_range 0 65536 (\<lambda>x. laplacian_body [] 65536 65536 y x)) [] =
     Inl OutOfBounds"
proof (intro conjI)
  show "apply_gaussian_rgb exact_ops (replicate 2147483649 0) 715827883 1 10 = Inl SignedOverflow"
    by (rule blur_index_overflow)
  show "sint (2147483646 + 2 :: uint32) = - 2147483648" by simp
  show "rd (replicate 2147483649 (0 :: byte)) (- 2147483648) = Inl OutOfBounds"
    by (simp add: rd_def)
  have "mul_int 65536 65536 = Inl SignedOverflow"
    by (simp add: mul_int_def int_result_def INT_MAX_def)
  then show "apply_laplacian_rgb (replicate 12884901888 0) 65536 65536 = Inl SignedOverflow"
    by (simp add: apply_laplacian_rgb_def Let_def)
  show "sint (65536 * 65536 :: uint32) = 0" by simp
  have s: "sub_int 0 1 = Inr (- 1)" "sub_int 65536 1 = Inr 65535"
    "mul_int 0 65536 = Inr 0" "add_int 0 0 = Inr 0"
    by (simp_all add: sub_int_def mul_int_def add_int_def int_result_def INT_MIN_def INT_MAX_def)
  have "get_grey [] 65536 65536 0 (- 1) = Inl OutOfBounds"
    by (simp add: get_grey_def s clamp_int_def rd_def Let_def)
  then have b: "laplacian_body [] 65536 65536 0 0 [] = Inl OutOfBounds"
    by (simp add: laplacian_body_def s)
  have row: "for_range 0 65536 (\<lambda>x. laplacian_body [] 65536 65536 0 x) [] = Inl OutOfBounds"
    by (rule for_range_step_Inl[of 0 65536 "\<lambda>x. laplacian_body [] 65536 65536 0 x" "[]"
          OutOfBounds])
       (simp_all add: b)
  show "for_range 0 65536 (\<lambda>y. for_range 0 65536 (\<lambda>x. laplacian_body [] 65536 65536 y x)) [] =
     Inl OutOfBounds"
    by (rule for_range_step_Inl[of 0 65536
          "\<lambda>y. for_range 0 65536 (\<lambda>x. laplacian_body [] 65536 65536 y x)" "[]" OutOfBounds])
       (simp_all add: row)
qed

section \<open>The invalid-argument error and the size of the result\<close>

text \<open>
  Claim C4. Each of the four transforms ends in the invalid-argument error exactly when
  the buffer length is not a multiple of 3, whatever the dimensions passed along: the
  length check comes before any access. A buffer that is returned has the full size:
  one sample per pixel for greyscale, the input length for invert and, under
  \<open>width * height * 3 = length\<close>, the input length for the blur and
  \<open>width * height\<close> for the Laplacian, the latter for every buffer that a vector can
  hold.
\<close>

theorem invalid_argument_iff:
  "(apply_greyscale_rgb_simd B = Inl InvalidArgument \<longleftrightarrow> length B mod 3 \<noteq> 0) \<and>
   (apply_invert_rgb_simd B = Inl InvalidArgument \<longleftrightarrow> length B mod 3 \<noteq> 0) \<and>
   (apply_gaussian_rgb ops B width height strength = Inl InvalidArgument
      \<longleftrightarrow> length B mod 3 \<noteq> 0) \<and>
   (apply_laplacian_rgb B width height = Inl InvalidArgument \<longleftrightarrow> length B mod 3 \<noteq> 0) \<and>
   (\<forall>out. apply_greyscale_rgb_simd B = Inr out \<longrightarrow> length out = length B div 3) \<and>
   (\<forall>out. apply_invert_rgb_simd B = Inr out \<longrightarrow> length out = length B) \<and>
   (unat width * unat height * 3 = length B \<longrightarrow>
      (\<forall>out. apply_gaussian_rgb ops B width height strength = Inr out
         \<longrightarrow> length out = length B) \<and>
      (length B \<le> vector_max_size \<longrightarrow>
         (\<forall>out. apply_laplacian_rgb B width height = Inr out
            \<longrightarrow> length out = unat width * unat height)))"
proof (intro conjI allI impI)
  show "apply_greyscale_rgb_simd B = Inl InvalidArgument \<longleftrightarrow> length B mod 3 \<noteq> 0"
    by (cases "length B mod 3 = 0")
       (simp_all add: apply_greyscale_rgb_simd_map, simp add: apply_greyscale_rgb_simd_def)
  show "apply_invert_rgb_simd B = Inl InvalidArgument \<longleftrightarrow> length B mod 3 \<noteq> 0"
    by (cases "length B mod 3 = 0")
       (simp_all add: apply_invert_rgb_simd_map, simp add: apply_invert_rgb_simd_def)
  show "apply_gaussian_rgb ops B width height strength = Inl InvalidArgument
      \<longleftrightarrow> length B mod 3 \<noteq> 0"
    using apply_gaussian_rgb_error[of B ops width height strength]
    by (cases "length B mod 3 = 0") (simp_all add: apply_gaussian_rgb_def)
  show "apply_laplacian_rgb B width height = Inl InvalidArgument \<longleftrightarrow> length B mod 3 \<noteq> 0"
    using apply_laplacian_rgb_error[of B width height]
    by (cases "length B mod 3 = 0") (simp_all add: apply_laplacian_rgb_def)
next
  fix out assume "apply_greyscale_rgb_simd B = Inr out"
  then show "length out = length B div 3"
    by (cases "length B mod 3 = 0")
       (auto simp: apply_greyscale_rgb_simd_map, simp add: apply_greyscale_rgb_simd_def)
next
  fix out assume "apply_invert_rgb_simd B = Inr out"
  then show "length out = length B"
    by (cases "length B mod 3 = 0")
       (auto simp: apply_invert_rgb_simd_map, simp add: apply_invert_rgb_simd_def)
next
  fix out
  assume "apply_gaussian_rgb ops B width height strength = Inr out"
  then show "length out = length B"
    by (rule apply_gaussian_rgb_length)
next
  fix out
  assume dims: "unat width * unat height * 3 = length B"
    and vec: "length B \<le> vector_max_size"
    and run: "apply_laplacian_rgb B width height = Inr out"
  from dims vec have "unat width * unat height * 3 \<le> vector_max_size" by simp
  with apply_laplacian_rgb_length[OF run]
  show "length out = unat width * unat height"
    by (simp add: signed_product_is_pixel_count)
qed

text \<open>The theorem of claim C4 at a two-byte buffer and at a one-pixel image.\<close>

theorem invalid_argument_iff_witness:
  "length [10, 20 :: byte] mod 3 \<noteq> 0 \<and>
   apply_greyscale_rgb_simd [10, 20] = Inl InvalidArgument \<and>
   apply_invert_rgb_simd [10, 20] = Inl InvalidArgument \<and>
   apply_gaussian_rgb exact_ops [10, 20] 1 1 10 = Inl InvalidArgument \<and>
   apply_laplacian_rgb [10, 20] 1 1 = Inl InvalidArgument \<and>
   unat (1 :: uint32) * unat (1 :: uint32) * 3 = length [10, 20, 30 :: byte] \<and>
   length [10, 20, 30 :: byte] \<le> vector_max_size \<and>
   (\<exists>out. apply_greyscale_rgb_simd [10, 20, 30] = Inr out \<and> length out = 1) \<and>
   (\<exists>out. apply_invert_rgb_simd [10, 20, 30] = Inr out \<and> length out = 3) \<and>
   (\<exists>out. apply_gaussian_rgb exact_ops [10, 20, 30] 1 1 10 = Inr out \<and> length out = 3) \<and>
   (\<exists>out. apply_laplacian_rgb [10, 20, 30] 1 1 = Inr out \<and> length out = 1)"
proof -
  have bad: "length [10, 20 :: byte] mod 3 \<noteq> 0" by simp
  have dims: "unat (1 :: uint32) * unat (1 :: uint32) * 3 = length [10, 20, 30 :: byte]" by simp
  have vec: "length [10, 20, 30 :: byte] \<le> vector_max_size"
    by (simp add: vector_max_size_def)
  have fit: "int (length [10, 20, 30 :: byte]) \<le> INT_MAX" by (simp add: INT_MAX_def)
  have fit1: "uint (1 :: uint32) * uint (1 :: uint32) \<le> INT_MAX" by (simp add: INT_MAX_def)
  have g: "\<exists>out. apply_greyscale_rgb_simd [10, 20, 30] = Inr out"
    by (simp add: apply_greyscale_rgb_simd_map)
  have i: "\<exists>out. apply_invert_rgb_simd [10, 20, 30] = Inr out"
    by (simp add: apply_invert_rgb_simd_map)
  have l: "\<exists>out. apply_laplacian_rgb [10, 20, 30] 1 1 = Inr out"
    using apply_laplacian_rgb_eq[OF dims fit1] by blast
  have k: "\<exists>kern. generate_gaussian_kernel exact_ops (blur_sigma exact_ops 10) =
      Inr (kern, max 1 (ceil_3sigma exact_ops (blur_sigma exact_ops 10))) \<and>
      length kern = nat (2 * max 1 (ceil_3sigma exact_ops (blur_sigma exact_ops 10)) + 1)"
    by (rule generate_ok) (simp_all add: exact_sigma_10 exact_ceil_1 INT_MIN_def)
  have r: "0 \<le> max 1 (ceil_3sigma exact_ops (blur_sigma exact_ops 10))"
    "max 1 (ceil_3sigma exact_ops (blur_sigma exact_ops 10)) \<le> 46340"
    by (simp_all add: exact_sigma_10 exact_ceil_1)
  have b: "\<exists>out. apply_gaussian_rgb exact_ops [10, 20, 30] 1 1 10 = Inr out"
    using k apply_gaussian_rgb_eq[OF dims fit _ r, of exact_ops] by blast
  note t2 = invalid_argument_iff[of "[10, 20]" exact_ops 1 1 10]
  note t3 = invalid_argument_iff[of "[10, 20, 30]" exact_ops 1 1 10]
  from t2 bad have e: "apply_greyscale_rgb_simd [10, 20] = Inl InvalidArgument"
    "apply_invert_rgb_simd [10, 20] = Inl InvalidArgument"
    "apply_gaussian_rgb exact_ops [10, 20] 1 1 10 = Inl InvalidArgument"
    "apply_laplacian_rgb [10, 20] 1 1 = Inl InvalidArgument"
    by blast+
  have n3: "length [10, 20, 30 :: byte] = 3" by simp
  have d3: "length [10, 20, 30 :: byte] div 3 = 1" by simp
  have m1: "unat (1 :: uint32) * unat (1 :: uint32) = 1" by simp
  from t3 g have "\<exists>out. apply_greyscale_rgb_simd [10, 20, 30] = Inr out \<and>
      length out = length [10, 20, 30 :: byte] div 3" by blast
  then have g': "\<exists>out. apply_greyscale_rgb_simd [10, 20, 30] = Inr out \<and> length out = 1"
    by (simp only: d3)
  from t3 i have "\<exists>out. apply_invert_rgb_simd [10, 20, 30] = Inr out \<and>
      length out = length [10, 20, 30 :: byte]" by blast
  then have i': "\<exists>out. apply_invert_rgb_simd [10, 20, 30] = Inr out \<and> length out = 3"
    by (simp only: n3)
  from t3 dims b have "\<exists>out. apply_gaussian_rgb exact_ops [10, 20, 30] 1 1 10 = Inr out \<and>
      length out = length [10, 20, 30 :: byte]" by blast
  then have b': "\<exists>out. apply_gaussian_rgb exact_ops [10, 20, 30] 1 1 10 = Inr out \<and>
      length out = 3"
    by (simp only: n3)
  from t3 dims vec l have "\<exists>out. apply_laplacian_rgb [10, 20, 30] 1 1 = Inr out \<and>
      length out = unat (1 :: uint32) * unat (1 :: uint32)" by blast
  then have l': "\<exists>out. apply_laplacian_rgb [10, 20, 30] 1 1 = Inr out \<and> length out = 1"
    by (simp only: m1)
  from bad dims vec e g' i' b' l' show ?thesis by blast
qed

section \<open>The blur at large and small strengths\<close>

text \<open>
  Claim C2 promises the two-pass convolution and a result of the input's length for
  every blur strength. The strength is an \<open>unsigned int\<close>, and the kernel generator
  squares the offsets in \<open>int\<close>. At strength 200000 (sigma 20000, radius 60000) the
  first offset is \<open>-60000\<close> and its square 3600000000 exceeds \<open>INT_MAX\<close>; at strength
  4294967295 (radius 1288490189) already the kernel size \<open>2 * radius + 1\<close> does. In
  both cases the blur of a one-pixel image ends in the signed overflow and returns no
  buffer.
\<close>

theorem gaussian_overflow_at_large_strength:
  "apply_gaussian_rgb exact_ops [0, 0, 0] 1 1 200000 = Inl SignedOverflow \<and>
   apply_gaussian_rgb exact_ops [0, 0, 0] 1 1 4294967295 = Inl SignedOverflow"
proof
  have "generate_gaussian_kernel exact_ops (blur_sigma exact_ops 200000) = Inl SignedOverflow"
    unfolding exact_sigma_200000
    by (rule generate_square_overflow) (simp_all add: exact_ceil_20000 INT_MAX_def)
  then show "apply_gaussian_rgb exact_ops [0, 0, 0] 1 1 200000 = Inl SignedOverflow"
    by (simp add: apply_gaussian_rgb_def Let_def)
  have "generate_gaussian_kernel exact_ops (blur_sigma exact_ops 4294967295) = Inl SignedOverflow"
    unfolding exact_sigma_max
    by (rule generate_square_overflow) (simp_all add: exact_ceil_max INT_MAX_def)
  then show "apply_gaussian_rgb exact_ops [0, 0, 0] 1 1 4294967295 = Inl SignedOverflow"
    by (simp add: apply_gaussian_rgb_def Let_def)
qed

text \<open>
  Below that bound the blur is what claim C2 describes, in every arithmetic. For an RGB
  buffer of at most \<open>INT_MAX\<close> samples with \<open>width * height * 3 = length\<close> and a
  strength whose kernel radius is at most 46340, the result is the vertical pass over
  the horizontal pass over the input, with the generated kernel; it has the length of
  the input and its samples lie in \<open>[0, 255]\<close>.
\<close>

lemma gaussian_two_pass:
  assumes "unat width * unat height * 3 = length B"
    and "int (length B) \<le> INT_MAX"
    and "INT_MIN \<le> ceil_3sigma ops (blur_sigma ops strength)"
    and "ceil_3sigma ops (blur_sigma ops strength) \<le> 46340"
  shows "\<exists>kern radius out.
           generate_gaussian_kernel ops (blur_sigma ops strength) = Inr (kern, radius) \<and>
           radius = max 1 (ceil_3sigma ops (blur_sigma ops strength)) \<and>
           apply_gaussian_rgb ops B width height strength = Inr out \<and>
           out = vertical_pass ops kern radius
                   (horizontal_pass ops kern radius B (uint width) (uint height))
                   (uint width) (uint height) \<and>
           length out = length B \<and>
           (\<forall>i<length out. 0 \<le> uint (out ! i) \<and> uint (out ! i) \<le> 255)"
proof -
  let ?r = "max 1 (ceil_3sigma ops (blur_sigma ops strength))"
  from generate_ok[OF assms(3,4)] obtain kern where
    k: "generate_gaussian_kernel ops (blur_sigma ops strength) = Inr (kern, ?r)"
      "length kern = nat (2 * ?r + 1)" by blast
  have r: "0 \<le> ?r" "?r \<le> 46340" using assms(4) by simp_all
  let ?out = "vertical_pass ops kern ?r
                   (horizontal_pass ops kern ?r B (uint width) (uint height))
                   (uint width) (uint height)"
  have a: "apply_gaussian_rgb ops B width height strength = Inr ?out"
    by (rule apply_gaussian_rgb_eq[OF assms(1,2) k(1) r k(2)])
  have l: "length ?out = length B"
    using assms(1) by (simp only: length_vertical_pass)
  have b: "\<forall>i<length ?out. 0 \<le> uint (?out ! i) \<and> uint (?out ! i) \<le> 255"
  proof (intro allI impI conjI)
    fix i
    show "0 \<le> uint (?out ! i)" by simp
    have "uint (?out ! i) < 2 ^ LENGTH(8)" by (rule uint_lt2p)
    then show "uint (?out ! i) \<le> 255" by simp
  qed
  from k(1) a l b show ?thesis by blast
qed

lemma gaussian_two_pass_at_strength_10:
  "unat (1 :: uint32) * unat (1 :: uint32) * 3 = length [10, 20, 30 :: byte] \<and>
   int (length [10, 20, 30 :: byte]) \<le> INT_MAX \<and>
   INT_MIN \<le> ceil_3sigma exact_ops (blur_sigma exact_ops 10) \<and>
   ceil_3sigma exact_ops (blur_sigma exact_ops 10) \<le> 46340 \<and>
   (\<exists>kern out.
      generate_gaussian_kernel exact_ops (blur_sigma exact_ops 10) = Inr (kern, 3) \<and>
      apply_gaussian_rgb exact_ops [10, 20, 30] 1 1 10 = Inr out \<and> length out = 3)"
proof -
  have h1: "unat (1 :: uint32) * unat (1 :: uint32) * 3 = length [10, 20, 30 :: byte]" by simp
  have h0: "int (length [10, 20, 30 :: byte]) \<le> INT_MAX" by (simp add: INT_MAX_def)
  have h2: "INT_MIN \<le> ceil_3sigma exact_ops (blur_sigma exact_ops 10)"
    by (simp add: exact_sigma_10 exact_ceil_1 INT_MIN_def)
  have h3: "ceil_3sigma exact_ops (blur_sigma exact_ops 10) \<le> 46340"
    by (simp add: exact_sigma_10 exact_ceil_1)
  from gaussian_two_pass[OF h1 h0 h2 h3] h1 h0 h2 h3 show ?thesis
    by (auto simp: exact_sigma_10 exact_ceil_1)
qed

text \<open>
  Claim C5 describes the kernel for every positive sigma. At sigma 20000 the radius is
  60000 and the generator stops in the overflow of \<open>x * x\<close> at its first offset: it
  returns no kernel. (Two's-complement wrap-around would turn the square into
  \<open>-694967296\<close> and the weight into \<open>exp(+694967296 / (2 sigma sigma))\<close>.)
\<close>

theorem kernel_overflow_at_sigma_20000:
  "generate_gaussian_kernel exact_ops 20000 = Inl SignedOverflow"
proof -
  have c: "ceil_3sigma exact_ops 20000 = 60000"
    by (rule exact_ceil_20000)
  have "46340 < ceil_3sigma exact_ops 20000"
    unfolding c by simp
  moreover have "ceil_3sigma exact_ops 20000 \<le> INT_MAX"
    unfolding c by (simp add: INT_MAX_def)
  ultimately show ?thesis
    by (rule generate_square_overflow)
qed

section \<open>The blur of a one-colour image\<close>

lemma channel_of_uniform:
  fixes B :: "byte list"
  assumes dims: "n * 3 = length B"
    and uni: "\<forall>p<n. B ! (3 * p) = r \<and> B ! (3 * p + 1) = g \<and> B ! (3 * p + 2) = b"
    and i: "i < length B"
  shows "B ! i = [r, g, b] ! (i mod 3)"
proof -
  let ?p = "i div 3"
  have p: "?p < n" using i dims[symmetric] by (simp add: less_mult_imp_div_less)
  from uni p have v: "B ! (3 * ?p) = r" "B ! (3 * ?p + 1) = g" "B ! (3 * ?p + 2) = b"
    by blast+
  have "i mod 3 < 3" by simp
  then consider "i mod 3 = 0" | "i mod 3 = 1" | "i mod 3 = 2" by linarith
  then show ?thesis
  proof cases
    case 1
    then have e: "3 * ?p = i" by presburger
    from v(1)[unfolded e] 1 show ?thesis by simp
  next
    case 2
    then have e: "3 * ?p + 1 = i" by presburger
    from v(2)[unfolded e] 2 show ?thesis by simp
  next
    case 3
    then have e: "3 * ?p + 2 = i" by presburger
    from v(3)[unfolded e] 3 show ?thesis by simp
  qed
qed

lemma sample_coordinates:
  fixes w h :: int
  assumes w: "1 \<le> w" and i: "i < nat (w * h * 3)"
  shows "0 \<le> int i mod 3" "int i mod 3 < 3"
    "0 \<le> (int i div 3) mod w" "(int i div 3) mod w < w"
    "0 \<le> (int i div 3) div w" "(int i div 3) div w < h"
    "nat (int i mod 3) = i mod 3"
proof -
  let ?q = "int i div 3"
  show c: "0 \<le> int i mod 3" "int i mod 3 < 3" by simp_all
  have "int i = ?q * 3 + int i mod 3" by simp
  moreover have "int i < w * h * 3" using i by simp
  ultimately have q: "0 \<le> ?q" "?q < w * h" using c by linarith+
  show x: "0 \<le> ?q mod w" "?q mod w < w" using w by simp_all
  show "0 \<le> ?q div w" using q(1) w by (simp add: pos_imp_zdiv_nonneg_iff)
  have e: "?q = ?q div w * w + ?q mod w" by simp
  have hw: "w * h = h * w" by simp
  from e q(2) x(1) hw have "?q div w * w < h * w" by linarith
  then show "?q div w < h" using w by (simp add: mult_less_cancel_right)
  show "nat (int i mod 3) = i mod 3"
    by (simp add: nat_mod_distrib)
qed

lemma horizontal_pass_uniform:
  assumes w: "1 \<le> w" and h: "1 \<le> h" and len: "length src = nat (w * h * 3)"
    and col: "\<forall>i<length src. src ! i = col (i mod 3)"
  shows "horizontal_pass ops kern radius src w h =
           map (\<lambda>i. constant_pass_sample ops kern radius (col (i mod 3))) [0..<nat (w * h * 3)]"
  unfolding horizontal_pass_def constant_pass_sample_def Let_def
proof (rule map_cong[OF refl])
  fix i assume "i \<in> set [0..<nat (w * h * 3)]"
  then have i: "i < nat (w * h * 3)" by simp
  note s = sample_coordinates[OF w i]
  have "src ! nat (((int i div 3) div w * w + edge_clamp ((int i div 3) mod w + k) w) * 3
            + int i mod 3) = col (i mod 3)" for k
  proof -
    let ?idx = "((int i div 3) div w * w + edge_clamp ((int i div 3) mod w + k) w) * 3
            + int i mod 3"
    have ex: "0 \<le> edge_clamp ((int i div 3) mod w + k) w"
      "edge_clamp ((int i div 3) mod w + k) w < w"
      using edge_clamp_range[OF w, of "(int i div 3) mod w + k"] by simp_all
    have r: "0 \<le> ?idx" "?idx < w * h * 3"
      by (rule sample_index_range[OF ex s(5,6) s(1,2)])+
    have m: "?idx mod 3 = int i mod 3"
      by (rule sample_index_div_mod(1)[OF ex s(1,2)])
    have "nat ?idx mod 3 = nat (?idx mod 3)"
      using r(1) by (simp add: nat_mod_distrib)
    then have "nat ?idx mod 3 = i mod 3"
      unfolding m by (simp only: s(7))
    moreover have "nat ?idx < length src" using r len by simp
    ultimately show ?thesis using col by simp
  qed
  then show "to_sample ops (convolve ops kern radius
        (\<lambda>k. src ! nat (((int i div 3) div w * w + edge_clamp ((int i div 3) mod w + k) w) * 3
            + int i mod 3))) =
      to_sample ops (convolve ops kern radius (\<lambda>k. col (i mod 3)))"
    by (simp only:)
qed

lemma vertical_pass_uniform:
  assumes w: "1 \<le> w" and h: "1 \<le> h" and len: "length src = nat (w * h * 3)"
    and col: "\<forall>i<length src. src ! i = col (i mod 3)"
  shows "vertical_pass ops kern radius src w h =
           map (\<lambda>i. constant_pass_sample ops kern radius (col (i mod 3))) [0..<nat (w * h * 3)]"
  unfolding vertical_pass_def constant_pass_sample_def Let_def
proof (rule map_cong[OF refl])
  fix i assume "i \<in> set [0..<nat (w * h * 3)]"
  then have i: "i < nat (w * h * 3)" by simp
  note s = sample_coordinates[OF w i]
  have "src ! nat ((edge_clamp ((int i div 3) div w + k) h * w + (int i div 3) mod w) * 3
            + int i mod 3) = col (i mod 3)" for k
  proof -
    let ?idx = "(edge_clamp ((int i div 3) div w + k) h * w + (int i div 3) mod w) * 3
            + int i mod 3"
    have ey: "0 \<le> edge_clamp ((int i div 3) div w + k) h"
      "edge_clamp ((int i div 3) div w + k) h < h"
      using edge_clamp_range[OF h, of "(int i div 3) div w + k"] by simp_all
    have r: "0 \<le> ?idx" "?idx < w * h * 3"
      by (rule sample_index_range[OF s(3,4) ey s(1,2)])+
    have m: "?idx mod 3 = int i mod 3"
      by (rule sample_index_div_mod(1)[OF s(3,4) s(1,2)])
    have "nat ?idx mod 3 = nat (?idx mod 3)"
      using r(1) by (simp add: nat_mod_distrib)
    then have "nat ?idx mod 3 = i mod 3"
      unfolding m by (simp only: s(7))
    moreover have "nat ?idx < length src" using r len by simp
    ultimately show ?thesis using col by simp
  qed
  then show "to_sample ops (convolve ops kern radius
        (\<lambda>k. src ! nat ((edge_clamp ((int i div 3) div w + k) h * w + (int i div 3) mod w) * 3
            + int i mod 3))) =
      to_sample ops (convolve ops kern radius (\<lambda>k. col (i mod 3)))"
    by (simp only:)
qed

text \<open>
  Where the kernel is generated and the buffer has at most \<open>INT_MAX\<close> samples, the
  blur of a one-colour image changes a sample only by what the two convolution sums
  over a constant do to it: every output sample is the input sample passed through
  the clamped and truncated sum of the horizontal pass and then through that of the
  vertical pass. This holds in every arithmetic.
\<close>

lemma uniform_blur_two_constant_sums:
  assumes dims: "unat width * unat height * 3 = length B"
    and fit: "int (length B) \<le> INT_MAX"
    and c: "INT_MIN \<le> ceil_3sigma ops (blur_sigma ops strength)"
      "ceil_3sigma ops (blur_sigma ops strength) \<le> 46340"
    and uni: "\<forall>p<unat width * unat height.
                B ! (3 * p) = r \<and> B ! (3 * p + 1) = g \<and> B ! (3 * p + 2) = b"
  shows "\<exists>kern radius.
           generate_gaussian_kernel ops (blur_sigma ops strength) = Inr (kern, radius) \<and>
           apply_gaussian_rgb ops B width height strength =
             Inr (map (\<lambda>v. constant_pass_sample ops kern radius
                             (constant_pass_sample ops kern radius v)) B)"
proof -
  from gaussian_two_pass[OF dims fit c] obtain kern radius where
    k: "generate_gaussian_kernel ops (blur_sigma ops strength) = Inr (kern, radius)"
    and a: "apply_gaussian_rgb ops B width height strength =
      Inr (vertical_pass ops kern radius
             (horizontal_pass ops kern radius B (uint width) (uint height))
             (uint width) (uint height))"
    by blast
  let ?w = "uint width" and ?h = "uint height"
  let ?T = "constant_pass_sample ops kern radius"
  let ?col = "\<lambda>j. [r, g, b] ! j"
  have n: "nat (?w * ?h * 3) = length B"
    using dims by (simp add: nat_mult_distrib)
  have "vertical_pass ops kern radius (horizontal_pass ops kern radius B ?w ?h) ?w ?h =
      map (\<lambda>v. ?T (?T v)) B"
  proof (cases "unat width * unat height = 0")
    case True
    then have z: "?w * ?h * 3 = 0" by (auto simp: unat_eq_0 uint_0_iff)
    from True dims have "length B = 0" by (simp only: mult_0)
    then have e: "B = []" by simp
    show ?thesis
      unfolding vertical_pass_def z e by simp
  next
    case False
    then have "unat width \<noteq> 0" "unat height \<noteq> 0" by simp_all
    then have "uint width \<noteq> 0" "uint height \<noteq> 0"
      by (simp_all add: unat_eq_0 uint_0_iff)
    then have wh: "1 \<le> ?w" "1 \<le> ?h"
      using uint_ge_0[of width] uint_ge_0[of height] by linarith+
    have cb: "\<forall>i<length B. B ! i = ?col (i mod 3)"
      using channel_of_uniform[OF dims uni] by blast
    have hp: "horizontal_pass ops kern radius B ?w ?h =
        map (\<lambda>i. ?T (?col (i mod 3))) [0..<length B]"
      using horizontal_pass_uniform[OF wh n[symmetric] cb, of ops kern radius]
      by (simp only: n)
    have lh: "length (map (\<lambda>i. ?T (?col (i mod 3))) [0..<length B]) = nat (?w * ?h * 3)"
      by (simp add: n)
    have ch: "\<forall>i<length (map (\<lambda>i. ?T (?col (i mod 3))) [0..<length B]).
        map (\<lambda>i. ?T (?col (i mod 3))) [0..<length B] ! i = (\<lambda>j. ?T (?col j)) (i mod 3)"
      by simp
    have "vertical_pass ops kern radius (horizontal_pass ops kern radius B ?w ?h) ?w ?h =
        map (\<lambda>i. ?T (?T (?col (i mod 3)))) [0..<length B]"
      unfolding hp
      using vertical_pass_uniform[OF wh lh ch, of ops kern radius]
      by (simp only: n)
    also have "\<dots> = map (\<lambda>i. ?T (?T (B ! i))) [0..<length B]"
      using cb by (intro map_cong) simp_all
    also have "\<dots> = map (\<lambda>v. ?T (?T v)) B"
      by (intro nth_equalityI) simp_all
    finally show ?thesis .
  qed
  with k a show ?thesis by auto
qed

text \<open>
  In exact arithmetic the normalised weights sum to 1 and a convolution sum over the
  constant \<open>v\<close> is \<open>v\<close>, which clamping and truncation leave alone: the blur then
  returns a one-colour image as it is. Binary64 rounds the weights and the sums; there
  the two truncations can each take a sample to the integer below.
\<close>

lemma foldl_plus_sum_list:
  fixes xs :: "real list"
  shows "foldl (+) a xs = a + sum_list xs"
  by (induction xs arbitrary: a) simp_all

lemma foldl_taps_constant:
  fixes f :: "int \<Rightarrow> real"
  shows "foldl (\<lambda>acc k. acc + f k * c) a xs = a + (\<Sum>k\<leftarrow>xs. f k) * c"
  by (induction xs arbitrary: a) (simp_all add: algebra_simps)

lemma sum_list_divide:
  fixes f :: "int \<Rightarrow> real"
  shows "(\<Sum>k\<leftarrow>xs. f k / t) = (\<Sum>k\<leftarrow>xs. f k) / t"
  by (induction xs) (simp_all add: add_divide_distrib)

lemma sum_list_positive:
  fixes f :: "int \<Rightarrow> real"
  assumes "xs \<noteq> []" "\<forall>k\<in>set xs. 0 < f k"
  shows "0 < (\<Sum>k\<leftarrow>xs. f k)"
  using assms
proof (induction xs)
  case Nil
  then show ?case by simp
next
  case (Cons x xs)
  show ?case
  proof (cases "xs = []")
    case True
    with Cons(3) show ?thesis by simp
  next
    case False
    with Cons have "0 < (\<Sum>k\<leftarrow>xs. f k)" by simp
    moreover from Cons(3) have "0 < f x" by simp
    ultimately show ?thesis by simp
  qed
qed

lemma gauss_weight_exact_positive: "0 < gauss_weight exact_ops sigma i"
  by (simp add: gauss_weight_def exact_ops_def)

lemma to_sample_exact: "to_sample exact_ops (of_int (uint (v :: byte))) = v"
proof -
  have "uint v < 2 ^ LENGTH(8)" by (rule uint_lt2p)
  then have le: "uint v \<le> 255" by simp
  have a: "\<not> (of_int (uint v) :: real) < of_int 0"
    by (simp only: of_int_less_iff not_less uint_ge_0)
  have b: "\<not> (of_int 255 :: real) < of_int (uint v)"
    using le by (simp only: of_int_less_iff not_less)
  have c: "(0 :: real) \<le> of_int (uint v)"
    by (simp only: of_int_0_le_iff uint_ge_0)
  have "to_sample exact_ops (of_int (uint v)) = word_of_int \<lfloor>(of_int (uint v) :: real)\<rfloor>"
    unfolding to_sample_def clamp_fp_def exact_ops_def
    by (simp only: fp_ops.simps a b c if_False if_True)
  also have "\<dots> = v" by (simp only: floor_of_int word_of_int_uint)
  finally show ?thesis .
qed

lemma constant_pass_sample_exact:
  assumes gen: "generate_gaussian_kernel exact_ops sigma = Inr (kern, radius)"
    and c: "INT_MIN \<le> ceil_3sigma exact_ops sigma" "ceil_3sigma exact_ops sigma \<le> 46340"
  shows "constant_pass_sample exact_ops kern radius v = v"
proof -
  let ?r = "max 1 (ceil_3sigma exact_ops sigma)"
  let ?W = "gauss_weight exact_ops sigma"
  let ?tot = "foldl (fp_add exact_ops) (fp_of_int exact_ops 0) (map ?W [- ?r..?r])"
  from gaussian_kernel_structure[OF c] gen
  have rad: "radius = ?r"
    and entry: "\<forall>i. - ?r \<le> i \<and> i \<le> ?r \<longrightarrow>
      kern ! nat (i + ?r) = fp_div exact_ops (?W i) ?tot"
    by auto
  have tot: "?tot = (\<Sum>k\<leftarrow>[- ?r..?r]. ?W k)"
    by (simp add: exact_ops_def foldl_plus_sum_list)
  have ne: "[- ?r..?r] \<noteq> []" by (simp add: upto_rec1)
  have pos: "0 < (\<Sum>k\<leftarrow>[- ?r..?r]. ?W k)"
    by (rule sum_list_positive[OF ne]) (simp add: gauss_weight_exact_positive)
  have "(\<Sum>k\<leftarrow>[- ?r..?r]. kern ! nat (k + ?r)) = (\<Sum>k\<leftarrow>[- ?r..?r]. ?W k / ?tot)"
    by (rule arg_cong[where f = sum_list], rule map_cong[OF refl])
       (use entry in \<open>simp add: exact_ops_def\<close>)
  also have "\<dots> = (\<Sum>k\<leftarrow>[- ?r..?r]. ?W k) / ?tot"
    by (rule sum_list_divide)
  also have "\<dots> = 1"
    unfolding tot using pos by simp
  finally have one: "(\<Sum>k\<leftarrow>[- ?r..?r]. kern ! nat (k + ?r)) = 1" .
  have "convolve exact_ops kern radius (\<lambda>k. v) =
      0 + (\<Sum>k\<leftarrow>[- ?r..?r]. kern ! nat (k + ?r)) * of_int (uint v)"
    unfolding convolve_def rad
    by (simp add: exact_ops_def foldl_taps_constant)
  then have "convolve exact_ops kern radius (\<lambda>k. v) = of_int (uint v)"
    unfolding one by simp
  then show ?thesis
    by (simp only: constant_pass_sample_def to_sample_exact)
qed

lemma uniform_blur_exact_unchanged:
  assumes dims: "unat width * unat height * 3 = length B"
    and fit: "int (length B) \<le> INT_MAX"
    and c: "INT_MIN \<le> ceil_3sigma exact_ops (blur_sigma exact_ops strength)"
      "ceil_3sigma exact_ops (blur_sigma exact_ops strength) \<le> 46340"
    and uni: "\<forall>p<unat width * unat height.
                B ! (3 * p) = r \<and> B ! (3 * p + 1) = g \<and> B ! (3 * p + 2) = b"
  shows "apply_gaussian_rgb exact_ops B width height strength = Inr B"
proof -
  from uniform_blur_two_constant_sums[OF dims fit c uni] obtain kern radius where
    k: "generate_gaussian_kernel exact_ops (blur_sigma exact_ops strength) = Inr (kern, radius)"
    and a: "apply_gaussian_rgb exact_ops B width height strength =
             Inr (map (\<lambda>v. constant_pass_sample exact_ops kern radius
                             (constant_pass_sample exact_ops kern radius v)) B)"
    by blast
  show ?thesis
    unfolding a by (simp add: constant_pass_sample_exact[OF k c])
qed

text \<open>The lemma at a one-colour image of two pixels, with strength 10.\<close>

lemma uniform_blur_at_strength_10:
  "apply_gaussian_rgb exact_ops [10, 20, 30, 10, 20, 30] 2 1 10 = Inr [10, 20, 30, 10, 20, 30]"
proof (rule uniform_blur_exact_unchanged[where r = 10 and g = 20 and b = 30])
  show "unat (2 :: uint32) * unat (1 :: uint32) * 3 = length [10, 20, 30, 10, 20, 30 :: byte]"
    by simp
  show "int (length [10, 20, 30, 10, 20, 30 :: byte]) \<le> INT_MAX"
    by (simp add: INT_MAX_def)
  show "INT_MIN \<le> ceil_3sigma exact_ops (blur_sigma exact_ops 10)"
    by (simp add: exact_sigma_10 exact_ceil_1 INT_MIN_def)
  show "ceil_3sigma exact_ops (blur_sigma exact_ops 10) \<le> 46340"
    by (simp add: exact_sigma_10 exact_ceil_1)
  show "\<forall>p<unat (2 :: uint32) * unat (1 :: uint32).
      [10, 20, 30, 10, 20, 30 :: byte] ! (3 * p) = 10 \<and>
      [10, 20, 30, 10, 20, 30 :: byte] ! (3 * p + 1) = 20 \<and>
      [10, 20, 30, 10, 20, 30 :: byte] ! (3 * p + 2) = 30"
  proof (intro allI impI)
    fix p assume "p < unat (2 :: uint32) * unat (1 :: uint32)"
    then have "p = 0 \<or> p = 1" by auto
    then show "[10, 20, 30, 10, 20, 30 :: byte] ! (3 * p) = 10 \<and>
      [10, 20, 30, 10, 20, 30 :: byte] ! (3 * p + 1) = 20 \<and>
      [10, 20, 30, 10, 20, 30 :: byte] ! (3 * p + 2) = 30"
      by auto
  qed
qed

text \<open>
  Claim C8 promises the unchanged image for every one-colour image and any strength.
  The strength is an \<open>unsigned int\<close>; at strength 4294967295 the kernel radius is
  1288490189 and the kernel size \<open>2 * radius + 1\<close> exceeds \<open>INT_MAX\<close>: the blur of a
  one-colour image of two pixels ends in the signed overflow and returns no image.
\<close>

theorem uniform_blur_overflow_at_large_strength:
  "apply_gaussian_rgb exact_ops [10, 20, 30, 10, 20, 30] 2 1 4294967295 = Inl SignedOverflow"
proof -
  have "generate_gaussian_kernel exact_ops (blur_sigma exact_ops 4294967295) = Inl SignedOverflow"
    unfolding exact_sigma_max
    by (rule generate_square_overflow) (simp_all add: exact_ceil_max INT_MAX_def)
  then show ?thesis
    by (simp add: apply_gaussian_rgb_def Let_def)
qed


end
